theory Spec2Isabelle
  imports Main "HOL-Library.Multiset"
begin

section \<open>Domain records (library.py)\<close>

text \<open>
  The two dataclasses of \<^verbatim>\<open>library.py\<close>. \<^verbatim>\<open>Book.subjects\<close> is a Python set; the
  model keeps the list of its elements in the order in which \<^verbatim>\<open>for subject in
  self.subjects\<close> visits them, because the loop in \<^verbatim>\<open>save\<close> can stop at a failing
  statement and then the order decides which rows were written.
\<close>

record Author =
  url :: string
  name :: string

record Book =
  url :: string
  isbn :: string
  title :: string
  subtitle :: "string option"
  authors :: "Author list"
  subjects :: "string list"
  cover_url :: "string option"

text \<open>An \<^verbatim>\<open>isbnlib.Isbn\<close> object, as far as this code reads it: its \<^verbatim>\<open>canonical\<close> attribute.\<close>

record Isbn =
  canonical :: string

text \<open>The argument of \<^verbatim>\<open>Book.from_db\<close> is typed \<^verbatim>\<open>isbnlib.Isbn | str\<close>.\<close>

datatype isbn_arg = IsbnObject Isbn | IsbnString string

text \<open>The exceptions that the modelled code raises, catches or lets through.\<close>

datatype exn =
    BookNotInDatabaseError string
  | IntegrityError
  | OperationalError
  | UnboundLocalError
  | IndexError
  | NotValidISBNError
  | KeyError string
  | TypeError
  | ExternalError string

section \<open>The store\<close>

text \<open>
  Modelled from the spec: \<^verbatim>\<open>schema.sql\<close>, which \<^verbatim>\<open>create_db_if_needed\<close> reads, is not
  among the sources. The tables follow section 6 of the specification:
  \<^verbatim>\<open>book(id, url UNIQUE, isbn UNIQUE, title, subtitle NULL, cover_url NULL)\<close>,
  \<^verbatim>\<open>author(id, url UNIQUE, name)\<close>, \<^verbatim>\<open>subject(id, sub_name UNIQUE)\<close>, and the link
  tables \<^verbatim>\<open>book_author(b_id, a_id)\<close> and \<^verbatim>\<open>book_subject(b_id, s_id)\<close>, each with a
  uniqueness constraint on the pair and foreign keys to the tables it links. A table
  is the list of its rows in insertion order.
\<close>

record book_row =
  bk_id :: int
  bk_url :: string
  bk_isbn :: string
  bk_title :: string
  bk_subtitle :: "string option"
  bk_cover_url :: "string option"

record author_row =
  au_id :: int
  au_url :: string
  au_name :: string

record subject_row =
  su_id :: int
  sub_name :: string

record database =
  book :: "book_row list"
  author :: "author_row list"
  subject :: "subject_row list"
  book_author :: "(int \<times> int) list"
  book_subject :: "(int \<times> int) list"

definition empty_database :: database where
  "empty_database = \<lparr>book = [], author = [], subject = [], book_author = [], book_subject = []\<rparr>"

text \<open>
  An open session (\<^verbatim>\<open>sqlite3.connect(..., isolation_level=None)\<close> in \<^verbatim>\<open>db_conn\<close>): the
  tables as the session sees them, the tables as they were at \<^verbatim>\<open>BEGIN\<close> while a
  transaction is open, the engine's per-connection "last insert rowid" (0 until the
  first successful insert on the connection), and the transaction-control calls made
  so far.
\<close>

datatype tx_call = BEGIN | COMMIT | ROLLBACK

record connection =
  db :: database
  snapshot :: "database option"
  last_insert_rowid :: int
  issued :: "tx_call list"

text \<open>
  \<^verbatim>\<open>db_conn\<close>: every use opens a fresh connection and closes it in its \<^verbatim>\<open>finally\<close>
  clause. The pragmas do not touch the five tables. Closing a connection with a
  transaction still open discards the uncommitted changes.
\<close>

definition connect :: "database \<Rightarrow> connection" where
  "connect store = \<lparr>db = store, snapshot = None, last_insert_rowid = 0, issued = []\<rparr>"

definition close :: "connection \<Rightarrow> database" where
  "close c = (case snapshot c of None \<Rightarrow> db c | Some s \<Rightarrow> s)"

subsection \<open>Transaction control (database.py)\<close>

text \<open>
  \<^verbatim>\<open>conn.execute("BEGIN")\<close> fails inside an open transaction (the engine refuses to
  nest); \<^verbatim>\<open>conn.commit()\<close> and \<^verbatim>\<open>conn.rollback()\<close> do nothing to the tables when no
  transaction is open.
\<close>

definition execute_BEGIN :: "connection \<Rightarrow> (exn + unit) \<times> connection" where
  "execute_BEGIN c =
     (case snapshot c of
        Some s \<Rightarrow> (Inl OperationalError, c\<lparr>issued := issued c @ [BEGIN]\<rparr>)
      | None \<Rightarrow> (Inr (), c\<lparr>snapshot := Some (db c), issued := issued c @ [BEGIN]\<rparr>))"

definition commit :: "connection \<Rightarrow> connection" where
  "commit c = c\<lparr>snapshot := None, issued := issued c @ [COMMIT]\<rparr>"

definition rollback :: "connection \<Rightarrow> connection" where
  "rollback c =
     (case snapshot c of
        None \<Rightarrow> c\<lparr>issued := issued c @ [ROLLBACK]\<rparr>
      | Some s \<Rightarrow> c\<lparr>db := s, snapshot := None, issued := issued c @ [ROLLBACK]\<rparr>)"

text \<open>
  The context manager \<^verbatim>\<open>transaction(conn)\<close>: \<^verbatim>\<open>BEGIN\<close>, then the body of the
  \<^verbatim>\<open>with\<close> block; \<^verbatim>\<open>except: conn.rollback(); raise\<close> and \<^verbatim>\<open>else: conn.commit()\<close>.
\<close>

definition transaction ::
  "(connection \<Rightarrow> (exn + 'a) \<times> connection) \<Rightarrow> connection \<Rightarrow> (exn + 'a) \<times> connection" where
  "transaction body c =
     (case execute_BEGIN c of
        (Inl e, c1) \<Rightarrow> (Inl e, c1)
      | (Inr u, c1) \<Rightarrow>
          (case body c1 of
             (Inl e, c2) \<Rightarrow> (Inl e, rollback c2)
           | (Inr v, c2) \<Rightarrow> (Inr v, commit c2)))"

subsection \<open>The SQL statements of library.py\<close>

text \<open>
  A row inserted without an explicit id gets 1 in an empty table and otherwise one
  more than the largest id in use.
\<close>

definition next_rowid :: "int list \<Rightarrow> int" where
  "next_rowid ids = (if ids = [] then 1 else Max (set ids) + 1)"

text \<open>\<^verbatim>\<open>SELECT id FROM book WHERE isbn = ?\<close> followed by \<^verbatim>\<open>fetchone()\<close>.\<close>

definition select_book_id :: "string \<Rightarrow> connection \<Rightarrow> int option" where
  "select_book_id i c = map_option bk_id (find (\<lambda>r. bk_isbn r = i) (book (db c)))"

text \<open>\<^verbatim>\<open>SELECT id, url, isbn, title, subtitle, cover_url FROM book WHERE isbn = ?\<close>.\<close>

definition select_book :: "string \<Rightarrow> connection \<Rightarrow> book_row option" where
  "select_book i c = find (\<lambda>r. bk_isbn r = i) (book (db c))"

text \<open>\<^verbatim>\<open>SELECT id from author where url = ?\<close> and \<^verbatim>\<open>SELECT id from subject where sub_name = ?\<close>.\<close>

definition select_author_id :: "string \<Rightarrow> connection \<Rightarrow> int option" where
  "select_author_id u c = map_option au_id (find (\<lambda>r. au_url r = u) (author (db c)))"

definition select_subject_id :: "string \<Rightarrow> connection \<Rightarrow> int option" where
  "select_subject_id n c = map_option su_id (find (\<lambda>r. sub_name r = n) (subject (db c)))"

text \<open>
  \<^verbatim>\<open>INSERT INTO book (url, isbn, title, subtitle, cover_url) VALUES (?,?,?,?,?)
  ON CONFLICT (url) DO NOTHING\<close>. A row with the same url makes the statement a
  no-op; the unique constraint on isbn is not the conflict target, so a row with the
  same isbn makes the statement fail. The value returned with the connection is
  what \<^verbatim>\<open>cur.lastrowid\<close> reads afterwards: the connection's last insert rowid, which
  a no-op leaves as it was.
\<close>

definition insert_book :: "Book \<Rightarrow> connection \<Rightarrow> (exn + int) \<times> connection" where
  "insert_book b c =
     (if list_ex (\<lambda>r. bk_url r = Book.url b) (book (db c)) then (Inr (last_insert_rowid c), c)
      else if list_ex (\<lambda>r. bk_isbn r = isbn b) (book (db c)) then (Inl IntegrityError, c)
      else
        let n = next_rowid (map bk_id (book (db c)));
            row = \<lparr>bk_id = n, bk_url = Book.url b, bk_isbn = isbn b, bk_title = title b,
                   bk_subtitle = subtitle b, bk_cover_url = cover_url b\<rparr>
        in (Inr n, c\<lparr>db := (db c)\<lparr>book := book (db c) @ [row]\<rparr>, last_insert_rowid := n\<rparr>))"

text \<open>\<^verbatim>\<open>INSERT INTO author (url, name) VALUES (?,?) ON CONFLICT (url) DO NOTHING\<close>.\<close>

definition insert_author :: "Author \<Rightarrow> connection \<Rightarrow> (exn + int) \<times> connection" where
  "insert_author a c =
     (if list_ex (\<lambda>r. au_url r = Author.url a) (author (db c)) then (Inr (last_insert_rowid c), c)
      else
        let n = next_rowid (map au_id (author (db c)));
            row = \<lparr>au_id = n, au_url = Author.url a, au_name = name a\<rparr>
        in (Inr n, c\<lparr>db := (db c)\<lparr>author := author (db c) @ [row]\<rparr>, last_insert_rowid := n\<rparr>))"

text \<open>\<^verbatim>\<open>INSERT INTO subject (sub_name) VALUES (?) ON CONFLICT (sub_name) DO NOTHING\<close>.\<close>

definition insert_subject :: "string \<Rightarrow> connection \<Rightarrow> (exn + int) \<times> connection" where
  "insert_subject s c =
     (if list_ex (\<lambda>r. sub_name r = s) (subject (db c)) then (Inr (last_insert_rowid c), c)
      else
        let n = next_rowid (map su_id (subject (db c)));
            row = \<lparr>su_id = n, sub_name = s\<rparr>
        in (Inr n, c\<lparr>db := (db c)\<lparr>subject := subject (db c) @ [row]\<rparr>, last_insert_rowid := n\<rparr>))"

text \<open>
  \<^verbatim>\<open>INSERT INTO book_author (b_id, a_id) VALUES (?,?) ON CONFLICT DO NOTHING\<close>: a
  no-op when the pair is already linked; otherwise the foreign keys are checked
  (\<^verbatim>\<open>pragma foreign_keys = on\<close>) and a missing parent row fails the statement. The
  link tables have no id column of their own; a new link is stored under the next
  implicit row number, which becomes the connection's last insert rowid.
\<close>

definition insert_book_author :: "int \<Rightarrow> int \<Rightarrow> connection \<Rightarrow> (exn + unit) \<times> connection" where
  "insert_book_author b_id a_id c =
     (if (b_id, a_id) \<in> set (book_author (db c)) then (Inr (), c)
      else if b_id \<in> set (map bk_id (book (db c))) \<and> a_id \<in> set (map au_id (author (db c)))
      then (Inr (), c\<lparr>db := (db c)\<lparr>book_author := book_author (db c) @ [(b_id, a_id)]\<rparr>,
                     last_insert_rowid := int (length (book_author (db c))) + 1\<rparr>)
      else (Inl IntegrityError, c))"

text \<open>\<^verbatim>\<open>INSERT INTO book_subject (b_id, s_id) VALUES (?,?) ON CONFLICT DO NOTHING\<close>.\<close>

definition insert_book_subject :: "int \<Rightarrow> int \<Rightarrow> connection \<Rightarrow> (exn + unit) \<times> connection" where
  "insert_book_subject b_id s_id c =
     (if (b_id, s_id) \<in> set (book_subject (db c)) then (Inr (), c)
      else if b_id \<in> set (map bk_id (book (db c))) \<and> s_id \<in> set (map su_id (subject (db c)))
      then (Inr (), c\<lparr>db := (db c)\<lparr>book_subject := book_subject (db c) @ [(b_id, s_id)]\<rparr>,
                     last_insert_rowid := int (length (book_subject (db c))) + 1\<rparr>)
      else (Inl IntegrityError, c))"

text \<open>
  \<^verbatim>\<open>SELECT url, name FROM author a JOIN book_author ba ON a.id = ba.a_id WHERE
  ba.b_id = ?\<close> with \<^verbatim>\<open>fetchall()\<close>: one result row for every link of the book and
  every author row the link points to.
\<close>

definition select_authors_of :: "int \<Rightarrow> connection \<Rightarrow> (string \<times> string) list" where
  "select_authors_of b_id c =
     concat (map (\<lambda>ba. map (\<lambda>r. (au_url r, au_name r))
                          (filter (\<lambda>r. au_id r = snd ba) (author (db c))))
                 (filter (\<lambda>ba. fst ba = b_id) (book_author (db c))))"

text \<open>
  \<^verbatim>\<open>SELECT sub_name FROM subject s JOIN book_subject bs ON s.id = bs.s_id WHERE
  bs.b_id = ?\<close>.
\<close>

definition select_subjects_of :: "int \<Rightarrow> connection \<Rightarrow> string list" where
  "select_subjects_of b_id c =
     concat (map (\<lambda>bs. map sub_name (filter (\<lambda>r. su_id r = snd bs) (subject (db c))))
                 (filter (\<lambda>bs. fst bs = b_id) (book_subject (db c))))"

section \<open>Book.save\<close>

text \<open>
  The loop \<^verbatim>\<open>for author in self.authors\<close>. Lines 125 to 135 settle \<^verbatim>\<open>a_id\<close>: look
  the author up by url; when the lookup finds nothing, insert the author and take
  \<^verbatim>\<open>cur.lastrowid\<close>. Lines 137 to 141 insert the link. A failing statement ends the
  loop and the call.
\<close>

definition find_or_create_author :: "Author \<Rightarrow> connection \<Rightarrow> (exn + int) \<times> connection" where
  "find_or_create_author a c =
     (case select_author_id (Author.url a) c of
        None \<Rightarrow> insert_author a c
      | Some a_id \<Rightarrow> (Inr a_id, c))"

definition save_author :: "int \<Rightarrow> Author \<Rightarrow> connection \<Rightarrow> (exn + unit) \<times> connection" where
  "save_author b_id a c =
     (case find_or_create_author a c of
        (Inl e, c1) \<Rightarrow> (Inl e, c1)
      | (Inr a_id, c1) \<Rightarrow> insert_book_author b_id a_id c1)"

fun save_authors :: "int \<Rightarrow> Author list \<Rightarrow> connection \<Rightarrow> (exn + unit) \<times> connection" where
  "save_authors b_id [] c = (Inr (), c)"
| "save_authors b_id (a # as) c =
     (case save_author b_id a c of
        (Inl e, c1) \<Rightarrow> (Inl e, c1)
      | (Inr u, c1) \<Rightarrow> save_authors b_id as c1)"

text \<open>The loop \<^verbatim>\<open>for subject in self.subjects\<close>, lines 143 to 159, built the same way.\<close>

definition find_or_create_subject :: "string \<Rightarrow> connection \<Rightarrow> (exn + int) \<times> connection" where
  "find_or_create_subject s c =
     (case select_subject_id s c of
        None \<Rightarrow> insert_subject s c
      | Some s_id \<Rightarrow> (Inr s_id, c))"

definition save_subject :: "int \<Rightarrow> string \<Rightarrow> connection \<Rightarrow> (exn + unit) \<times> connection" where
  "save_subject b_id s c =
     (case find_or_create_subject s c of
        (Inl e, c1) \<Rightarrow> (Inl e, c1)
      | (Inr s_id, c1) \<Rightarrow> insert_book_subject b_id s_id c1)"

fun save_subjects :: "int \<Rightarrow> string list \<Rightarrow> connection \<Rightarrow> (exn + unit) \<times> connection" where
  "save_subjects b_id [] c = (Inr (), c)"
| "save_subjects b_id (s # ss) c =
     (case save_subject b_id s c of
        (Inl e, c1) \<Rightarrow> (Inl e, c1)
      | (Inr u, c1) \<Rightarrow> save_subjects b_id ss c1)"

text \<open>
  Lines 105 to 122: the book identity \<^verbatim>\<open>b_id\<close>. When the isbn is not stored the
  insert runs inside \<^verbatim>\<open>with transaction(conn)\<close>, and \<^verbatim>\<open>b_id = cur.lastrowid\<close> is read
  after the block.
\<close>

definition resolve_book_id :: "Book \<Rightarrow> connection \<Rightarrow> (exn + int) \<times> connection" where
  "resolve_book_id b c =
     (case select_book_id (isbn b) c of
        None \<Rightarrow> transaction (insert_book b) c
      | Some b_id \<Rightarrow> (Inr b_id, c))"

text \<open>
  The body of \<^verbatim>\<open>with db_conn(DB_FILE) as conn\<close> in \<^verbatim>\<open>save\<close>: the book identity, the two
  loops, and the closing \<^verbatim>\<open>conn.commit()\<close>.
\<close>

definition save_body :: "Book \<Rightarrow> connection \<Rightarrow> (exn + unit) \<times> connection" where
  "save_body b c =
     (case resolve_book_id b c of
        (Inl e, c1) \<Rightarrow> (Inl e, c1)
      | (Inr b_id, c1) \<Rightarrow>
          (case save_authors b_id (authors b) c1 of
             (Inl e, c2) \<Rightarrow> (Inl e, c2)
           | (Inr u, c2) \<Rightarrow>
               (case save_subjects b_id (subjects b) c2 of
                  (Inl e, c3) \<Rightarrow> (Inl e, c3)
                | (Inr v, c3) \<Rightarrow> (Inr (), commit c3))))"

text \<open>\<^verbatim>\<open>Book.save\<close>: the result (or the exception that leaves the call) and the store afterwards.\<close>

definition save :: "Book \<Rightarrow> database \<Rightarrow> (exn + unit) \<times> database" where
  "save b store = (case save_body b (connect store) of (r, c) \<Rightarrow> (r, close c))"

section \<open>Book.from_db\<close>

text \<open>\<^verbatim>\<open>try: isbn = isbn.canonical except AttributeError: pass\<close>.\<close>

fun isbn_key :: "isbn_arg \<Rightarrow> string" where
  "isbn_key (IsbnObject i) = canonical i"
| "isbn_key (IsbnString s) = s"

definition from_db_body :: "isbn_arg \<Rightarrow> connection \<Rightarrow> (exn + Book) \<times> connection" where
  "from_db_body i c =
     (case select_book (isbn_key i) c of
        None \<Rightarrow> (Inl (BookNotInDatabaseError (isbn_key i)), c)
      | Some r \<Rightarrow>
          (Inr \<lparr>Book.url = bk_url r, isbn = bk_isbn r, title = bk_title r,
                subtitle = bk_subtitle r,
                authors = map (\<lambda>(u, n). \<lparr>Author.url = u, name = n\<rparr>) (select_authors_of (bk_id r) c),
                subjects = remdups (select_subjects_of (bk_id r) c),
                cover_url = bk_cover_url r\<rparr>, c))"

definition from_db :: "isbn_arg \<Rightarrow> database \<Rightarrow> (exn + Book) \<times> database" where
  "from_db i store = (case from_db_body i (connect store) of (r, c) \<Rightarrow> (r, close c))"

section \<open>fetch_openlibrary_book\<close>

text \<open>
  The network is outside the program: \<^verbatim>\<open>httpx.get\<close> is a parameter that returns a
  response or raises, and a response carries what \<^verbatim>\<open>resp.json()\<close> returns or raises.
  \<^verbatim>\<open>print\<close> appends to the output.
\<close>

datatype 'r json_value = JObject "(string \<times> 'r) list" | JOther

record 'r response =
  status_code :: int
  headers :: "(string \<times> string) list"
  json :: "exn + 'r json_value"

datatype printed = PText string | PStatus int | PHeaders "(string \<times> string) list"

definition request_url :: "string \<Rightarrow> string" where
  "request_url key = ''https://openlibrary.org/api/books?bibkeys='' @ key @ ''&format=json&jscmd=data''"

text \<open>\<^verbatim>\<open>resp_data[key]\<close>: a missing key raises \<^verbatim>\<open>KeyError\<close>, a JSON value that is not an object \<^verbatim>\<open>TypeError\<close>.\<close>

definition subscript :: "'r json_value \<Rightarrow> string \<Rightarrow> exn + 'r" where
  "subscript d k =
     (case d of
        JObject kv \<Rightarrow> (case map_of kv k of None \<Rightarrow> Inl (KeyError k) | Some v \<Rightarrow> Inr v)
      | JOther \<Rightarrow> Inl TypeError)"

text \<open>
  The \<^verbatim>\<open>except Exception as e\<close> block. The local \<^verbatim>\<open>resp\<close> is bound only once
  \<^verbatim>\<open>httpx.get\<close> has returned; reading it unbound in \<^verbatim>\<open>print(resp.status_code)\<close>
  raises \<^verbatim>\<open>UnboundLocalError\<close> before \<^verbatim>\<open>raise e\<close> is reached.
\<close>

definition fetch_handler ::
  "string \<Rightarrow> string \<Rightarrow> 'r response option \<Rightarrow> exn \<Rightarrow> printed list \<Rightarrow> (exn + 'r) \<times> printed list" where
  "fetch_handler key u resp e out =
     (case resp of
        None \<Rightarrow> (Inl UnboundLocalError, out @ [PText key, PText u])
      | Some r \<Rightarrow>
          (Inl e, out @ [PText key, PText u, PStatus (status_code r), PHeaders (headers r)]))"

definition fetch_openlibrary_book ::
  "(string \<Rightarrow> exn + 'r response) \<Rightarrow> Isbn \<Rightarrow> printed list \<Rightarrow> (exn + 'r) \<times> printed list" where
  "fetch_openlibrary_book httpx_get i out =
     (let key = ''ISBN:'' @ canonical i; u = request_url key
      in case httpx_get u of
           Inl e \<Rightarrow> fetch_handler key u None e out
         | Inr resp \<Rightarrow>
             (case json resp of
                Inl e \<Rightarrow> fetch_handler key u (Some resp) e out
              | Inr resp_data \<Rightarrow>
                  (case subscript resp_data key of
                     Inl e \<Rightarrow> fetch_handler key u (Some resp) e out
                   | Inr book_data \<Rightarrow> (Inr book_data, out))))"

section \<open>find_isbn\<close>

text \<open>
  \<^verbatim>\<open>isbnlib\<close> is a library, not part of this program: \<^verbatim>\<open>get_isbnlike\<close> (the
  substrings of the text that look like an ISBN, in order) and the constructor
  \<^verbatim>\<open>Isbn\<close> (which validates and raises \<^verbatim>\<open>NotValidISBNError\<close>) are parameters.
  \<^verbatim>\<open>[0]\<close> on an empty list raises \<^verbatim>\<open>IndexError\<close>; the two \<^verbatim>\<open>except\<close> clauses catch
  exactly \<^verbatim>\<open>IndexError\<close> and \<^verbatim>\<open>NotValidISBNError\<close>.
\<close>

definition find_isbn ::
  "(string \<Rightarrow> string list) \<Rightarrow> (string \<Rightarrow> exn + Isbn) \<Rightarrow> string \<Rightarrow> exn + Isbn option" where
  "find_isbn get_isbnlike mk_Isbn text =
     (case (case get_isbnlike text of [] \<Rightarrow> Inl IndexError | m # ms \<Rightarrow> mk_Isbn m) of
        Inr i \<Rightarrow> Inr (Some i)
      | Inl IndexError \<Rightarrow> Inr None
      | Inl NotValidISBNError \<Rightarrow> Inr None
      | Inl e \<Rightarrow> Inl e)"

section \<open>Store invariants and reachable stores\<close>

text \<open>The uniqueness constraints of the schema, as properties of a store.\<close>

definition unique_rows :: "database \<Rightarrow> bool" where
  "unique_rows t \<longleftrightarrow>
     distinct (map bk_isbn (book t)) \<and> distinct (map bk_url (book t)) \<and>
     distinct (map au_url (author t)) \<and> distinct (map sub_name (subject t)) \<and>
     distinct (book_author t) \<and> distinct (book_subject t)"

text \<open>Row ids are unique and positive, and every link points to existing rows.\<close>

definition ids_ok :: "database \<Rightarrow> bool" where
  "ids_ok t \<longleftrightarrow>
     distinct (map bk_id (book t)) \<and> distinct (map au_id (author t)) \<and>
     distinct (map su_id (subject t)) \<and> list_all (\<lambda>i. 0 < i) (map bk_id (book t))"

definition links_ok :: "database \<Rightarrow> bool" where
  "links_ok t \<longleftrightarrow>
     list_all (\<lambda>l. fst l \<in> set (map bk_id (book t)) \<and> snd l \<in> set (map au_id (author t)))
       (book_author t) \<and>
     list_all (\<lambda>l. fst l \<in> set (map bk_id (book t)) \<and> snd l \<in> set (map su_id (subject t)))
       (book_subject t)"

definition consistent :: "database \<Rightarrow> bool" where
  "consistent t \<longleftrightarrow> unique_rows t \<and> ids_ok t \<and> links_ok t"

text \<open>The stores that sequences of \<^verbatim>\<open>save\<close> and \<^verbatim>\<open>from_db\<close> calls produce from the empty one.\<close>

inductive reachable :: "database \<Rightarrow> bool" where
  reachable_empty: "reachable empty_database"
| reachable_save: "reachable t \<Longrightarrow> reachable (snd (save b t))"
| reachable_from_db: "reachable t \<Longrightarrow> reachable (snd (from_db i t))"

section \<open>Example values\<close>

definition author_a1 :: Author where
  "author_a1 = \<lparr>Author.url = ''https://ol/a1'', name = ''A. Author''\<rparr>"

definition author_a2 :: Author where
  "author_a2 = \<lparr>Author.url = ''https://ol/a2'', name = ''B. Writer''\<rparr>"

definition book_b1 :: Book where
  "book_b1 = \<lparr>Book.url = ''https://ol/b1'', isbn = ''9780226550275'', title = ''T'',
     subtitle = None, authors = [author_a1], subjects = [''Economics''], cover_url = None\<rparr>"

text \<open>The same url under another isbn (the ten-digit form).\<close>

definition book_b1_isbn10 :: Book where
  "book_b1_isbn10 = book_b1\<lparr>isbn := ''0226550273''\<rparr>"

text \<open>Another book, with the same first author and the same subject.\<close>

definition book_b2 :: Book where
  "book_b2 = \<lparr>Book.url = ''https://ol/b2'', isbn = ''9780140449136'', title = ''U'',
     subtitle = Some ''S'', authors = [author_a1, author_a2],
     subjects = [''Economics'', ''History''], cover_url = Some ''https://ol/c2''\<rparr>"

text \<open>A third book, whose author has the url of \<^verbatim>\<open>author_a1\<close> under another name.\<close>

definition book_b3 :: Book where
  "book_b3 = \<lparr>Book.url = ''https://ol/b3'', isbn = ''9780199535569'', title = ''V'',
     subtitle = None, authors = [author_a1\<lparr>name := ''Alice Author''\<rparr>],
     subjects = [''Economics''], cover_url = None\<rparr>"

text \<open>A fourth book, which lists the same author twice.\<close>

definition book_b4 :: Book where
  "book_b4 = \<lparr>Book.url = ''https://ol/b4'', isbn = ''9780192833983'', title = ''W'',
     subtitle = None, authors = [author_a2, author_a2], subjects = [], cover_url = None\<rparr>"

definition store_b1 :: database where
  "store_b1 = snd (save book_b1 empty_database)"

lemmas engine_defs =
  connect_def close_def execute_BEGIN_def commit_def rollback_def transaction_def
  next_rowid_def select_book_id_def select_book_def select_author_id_def select_subject_id_def
  insert_book_def insert_author_def insert_subject_def insert_book_author_def
  insert_book_subject_def select_authors_of_def select_subjects_of_def
  find_or_create_author_def find_or_create_subject_def save_author_def save_subject_def
  resolve_book_id_def save_body_def
  save_authors.simps save_subjects.simps save_def from_db_body_def from_db_def empty_database_def

section \<open>Facts about lookups\<close>

lemma find_key_None: "find (\<lambda>r. f r = k) xs = None \<longleftrightarrow> k \<notin> set (map f xs)"
  by (induction xs) auto

lemma find_key_Some: "find (\<lambda>r. f r = k) xs = Some r \<Longrightarrow> r \<in> set xs \<and> f r = k"
  by (induction xs) (auto split: if_splits)

lemma find_key_append:
  "find (\<lambda>r. f r = k) xs = Some r \<Longrightarrow> find (\<lambda>r. f r = k) (xs @ ys) = Some r"
  by (induction xs) auto

lemma list_ex_key: "list_ex (\<lambda>r. f r = k) xs \<longleftrightarrow> k \<in> set (map f xs)"
  by (induction xs) auto

section \<open>The transactional scope\<close>

text \<open>
  Claim C8. On a session with no transaction open, the scope first issues \<^verbatim>\<open>BEGIN\<close>,
  which succeeds, and runs the body on the resulting session. If the body returns a
  value, the scope returns that value and its last call is \<^verbatim>\<open>COMMIT\<close>; if the body
  raises \<open>e\<close>, the scope's last call is \<^verbatim>\<open>ROLLBACK\<close> and it raises the same \<open>e\<close>.
\<close>

theorem transaction_scope:
  assumes "snapshot c = None"
  shows "\<exists>c1. execute_BEGIN c = (Inr (), c1) \<and> issued c1 = issued c @ [BEGIN] \<and>
           (\<forall>v c2. body c1 = (Inr v, c2) \<longrightarrow>
               transaction body c = (Inr v, commit c2) \<and> issued (commit c2) = issued c2 @ [COMMIT]) \<and>
           (\<forall>e c2. body c1 = (Inl e, c2) \<longrightarrow>
               transaction body c = (Inl e, rollback c2) \<and> issued (rollback c2) = issued c2 @ [ROLLBACK])"
  using assms
  by (simp add: execute_BEGIN_def transaction_def commit_def rollback_def split: option.splits)

theorem transaction_scope_witness:
  "fst (transaction (insert_book book_b1) (connect empty_database)) = Inr 1 \<and>
   issued (snd (transaction (insert_book book_b1) (connect empty_database))) = [BEGIN, COMMIT] \<and>
   transaction (\<lambda>c. (Inl IntegrityError :: exn + unit, c)) (connect store_b1)
     = (Inl IntegrityError, (connect store_b1)\<lparr>issued := [BEGIN, ROLLBACK]\<rparr>)"
  using transaction_scope [of "connect empty_database" "insert_book book_b1"]
        transaction_scope [of "connect store_b1" "\<lambda>c. (Inl IntegrityError :: exn + unit, c)"]
  by (simp add: engine_defs book_b1_def)

section \<open>Loading\<close>

text \<open>
  Claim C6. \<^verbatim>\<open>from_db\<close> leaves the store as it found it on every path, and for an
  isbn that no book row carries it raises \<^verbatim>\<open>BookNotInDatabaseError\<close> with that isbn.
\<close>

theorem from_db_missing:
  "snd (from_db i store) = store \<and>
   (isbn_key i \<notin> set (map bk_isbn (book store)) \<longrightarrow>
      fst (from_db i store) = Inl (BookNotInDatabaseError (isbn_key i)))"
proof -
  have "find (\<lambda>r. bk_isbn r = isbn_key i) (book store) = None"
    if "isbn_key i \<notin> set (map bk_isbn (book store))"
    using that by (simp add: find_key_None)
  then show ?thesis
    by (auto simp: from_db_def from_db_body_def select_book_def connect_def close_def
             split: option.splits)
qed

theorem from_db_missing_witness:
  "from_db (IsbnString ''9999999999999'') empty_database
     = (Inl (BookNotInDatabaseError ''9999999999999''), empty_database)"
  using from_db_missing [of "IsbnString ''9999999999999''" empty_database]
  by (simp add: empty_database_def prod_eq_iff)

section \<open>Finding an identifier in text\<close>

text \<open>
  Claim C7. \<^verbatim>\<open>find_isbn\<close> looks at the first ISBN-like substring only: with no such
  substring it returns \<^verbatim>\<open>None\<close>; when the first one validates it returns the
  \<^verbatim>\<open>Isbn\<close> built from it (whose \<^verbatim>\<open>canonical\<close> attribute is the canonical form); when
  the first one is rejected with \<^verbatim>\<open>NotValidISBNError\<close> it returns \<^verbatim>\<open>None\<close> whatever
  follows. With a constructor that raises nothing but \<^verbatim>\<open>NotValidISBNError\<close>, no
  exception leaves \<^verbatim>\<open>find_isbn\<close>.
\<close>

theorem find_isbn_first_match:
  "(get_isbnlike text = [] \<longrightarrow> find_isbn get_isbnlike mk_Isbn text = Inr None) \<and>
   (\<forall>m ms. get_isbnlike text = m # ms \<longrightarrow>
      (\<forall>i. mk_Isbn m = Inr i \<longrightarrow> find_isbn get_isbnlike mk_Isbn text = Inr (Some i)) \<and>
      (mk_Isbn m = Inl NotValidISBNError \<longrightarrow> find_isbn get_isbnlike mk_Isbn text = Inr None)) \<and>
   ((\<forall>m e. mk_Isbn m = Inl e \<longrightarrow> e = NotValidISBNError) \<longrightarrow>
      (\<exists>r. find_isbn get_isbnlike mk_Isbn text = Inr r))"
  by (auto simp: find_isbn_def split: list.splits sum.splits exn.splits)

theorem find_isbn_first_match_witness:
  "find_isbn (\<lambda>t. [''978-0-226-55027-5'', ''0-00''])
     (\<lambda>m. if m = ''978-0-226-55027-5'' then Inr \<lparr>canonical = ''9780226550275''\<rparr> else Inl NotValidISBNError)
     ''ISBN 978-0-226-55027-5 0-00'' = Inr (Some \<lparr>canonical = ''9780226550275''\<rparr>) \<and>
   find_isbn (\<lambda>t. [''0-00'', ''978-0-226-55027-5''])
     (\<lambda>m. if m = ''978-0-226-55027-5'' then Inr \<lparr>canonical = ''9780226550275''\<rparr> else Inl NotValidISBNError)
     ''0-00 ISBN 978-0-226-55027-5'' = Inr None \<and>
   find_isbn (\<lambda>t. []) (\<lambda>m. Inl NotValidISBNError) ''no digits'' = Inr None"
  using find_isbn_first_match [of "\<lambda>t. [''978-0-226-55027-5'', ''0-00'']" "''ISBN 978-0-226-55027-5 0-00''"
          "\<lambda>m. if m = ''978-0-226-55027-5'' then Inr \<lparr>canonical = ''9780226550275''\<rparr> else Inl NotValidISBNError"]
        find_isbn_first_match [of "\<lambda>t. [''0-00'', ''978-0-226-55027-5'']" "''0-00 ISBN 978-0-226-55027-5''"
          "\<lambda>m. if m = ''978-0-226-55027-5'' then Inr \<lparr>canonical = ''9780226550275''\<rparr> else Inl NotValidISBNError"]
        find_isbn_first_match [of "\<lambda>t. []" "''no digits''" "\<lambda>m. Inl NotValidISBNError"]
  by simp

section \<open>Fetching metadata\<close>

text \<open>
  When the response exists (its body is not JSON, or the key is missing from it), the
  handler prints the key, the url, the status and the headers and raises the same
  exception again.
\<close>

lemma fetch_bound_failure:
  "httpx_get (request_url (''ISBN:'' @ canonical i)) = Inr resp \<Longrightarrow>
   (json resp = Inl e \<or> (\<exists>d. json resp = Inr d \<and> subscript d (''ISBN:'' @ canonical i) = Inl e)) \<Longrightarrow>
   fetch_openlibrary_book httpx_get i out
   = (Inl e, out @ [PText (''ISBN:'' @ canonical i), PText (request_url (''ISBN:'' @ canonical i)),
                    PStatus (status_code resp), PHeaders (headers resp)])"
  by (auto simp: fetch_openlibrary_book_def fetch_handler_def Let_def)

text \<open>
  Claim C9 says that every failure of the fetch reaches the caller unchanged, after
  the key, the url and (when available) the status and headers are logged. When
  \<^verbatim>\<open>httpx.get\<close> itself raises, the handler prints the key and the url and then reads
  the unbound \<^verbatim>\<open>resp\<close>: the caller gets \<^verbatim>\<open>UnboundLocalError\<close>, not the network
  failure.
\<close>

theorem fetch_network_failure:
  "fetch_openlibrary_book (\<lambda>u. Inl (ExternalError ''ConnectError'') :: exn + unit response)
     \<lparr>canonical = ''9780226550275''\<rparr> []
   = (Inl UnboundLocalError,
      [PText ''ISBN:9780226550275'',
       PText ''https://openlibrary.org/api/books?bibkeys=ISBN:9780226550275&format=json&jscmd=data''])"
  by (simp add: fetch_openlibrary_book_def fetch_handler_def request_url_def)

section \<open>Saving under a url that is already stored\<close>

text \<open>
  Claim C4 says that a book whose url is stored under another isbn gets, for its
  links, the identity of the stored row. With \<^verbatim>\<open>book_b1\<close> stored (row id 1) and the
  same url saved under the ten-digit isbn: the lookup by isbn finds nothing, the
  insert is a no-op, no second book row appears, and \<^verbatim>\<open>cur.lastrowid\<close> is 0 on the
  fresh connection. The link insert for the first author then fails on the foreign
  key, and the call raises \<^verbatim>\<open>IntegrityError\<close>.
\<close>

theorem save_url_conflict_book_id:
  "select_book_id (isbn book_b1_isbn10) (connect store_b1) = None \<and>
   map bk_id (filter (\<lambda>r. bk_url r = Book.url book_b1_isbn10) (book store_b1)) = [1] \<and>
   fst (resolve_book_id book_b1_isbn10 (connect store_b1)) = Inr 0 \<and>
   save book_b1_isbn10 store_b1 = (Inl IntegrityError, store_b1)"
  by (simp add: store_b1_def book_b1_isbn10_def book_b1_def author_a1_def engine_defs)

text \<open>
  Claim C1 says that a failing statement anywhere in \<^verbatim>\<open>save\<close> leaves the store as it
  was before the call. Only the book insert runs inside the transactional scope; the
  statements of the two loops commit one by one. With a new author on the book of the
  previous example, the author row is written and stays, and then the link insert
  fails.
\<close>

theorem save_failure_keeps_author_row:
  "fst (save (book_b1_isbn10\<lparr>authors := [author_a2]\<rparr>) store_b1) = Inl IntegrityError \<and>
   snd (save (book_b1_isbn10\<lparr>authors := [author_a2]\<rparr>) store_b1)
     = store_b1\<lparr>author := author store_b1 @
         [\<lparr>au_id = 2, au_url = Author.url author_a2, au_name = name author_a2\<rparr>]\<rparr> \<and>
   snd (save (book_b1_isbn10\<lparr>authors := [author_a2]\<rparr>) store_b1) \<noteq> store_b1"
  by (simp add: store_b1_def book_b1_isbn10_def book_b1_def author_a1_def author_a2_def engine_defs)

section \<open>The statements of a round\<close>

lemma find_append_None: "find P xs = None \<Longrightarrow> find P (xs @ ys) = find P ys"
  by (induction xs) (auto split: if_splits)

lemma next_rowid_fresh: "next_rowid ids \<notin> set ids"
proof
  assume a: "next_rowid ids \<in> set ids"
  then have "ids \<noteq> []" by auto
  with a have "Max (set ids) + 1 \<in> set ids" by (simp add: next_rowid_def)
  then have "Max (set ids) + 1 \<le> Max (set ids)" by (intro Max_ge) auto
  then show False by simp
qed

lemma next_rowid_pos: "list_all (\<lambda>i. 0 < i) ids \<Longrightarrow> 0 < next_rowid ids"
proof (cases ids)
  case Nil
  then show ?thesis by (simp add: next_rowid_def)
next
  case (Cons x xs)
  assume "list_all (\<lambda>i. 0 < i) ids"
  with Cons have "0 < x" by simp
  moreover have "x \<le> Max (set ids)" using Cons by (intro Max_ge) auto
  ultimately have "0 < Max (set ids)" by linarith
  moreover have "ids \<noteq> []" using Cons by simp
  ultimately show ?thesis by (simp add: next_rowid_def)
qed

lemma find_key_cases:
  obtains (absent) "find (\<lambda>r. f r = k) xs = None" "k \<notin> set (map f xs)"
  | (present) r where "find (\<lambda>r. f r = k) xs = Some r" "r \<in> set xs" "f r = k" "k \<in> set (map f xs)"
proof (cases "find (\<lambda>r. f r = k) xs")
  case None
  then show ?thesis using absent by (simp add: find_key_None)
next
  case (Some r)
  then have "r \<in> set xs" "f r = k" by (auto dest: find_key_Some)
  moreover from this have "k \<in> set (map f xs)" by force
  ultimately show ?thesis using present Some by blast
qed

lemma foc_author_fst:
  "fst (find_or_create_author a c) =
     Inr (case find (\<lambda>r. au_url r = Author.url a) (author (db c)) of
            Some r \<Rightarrow> au_id r | None \<Rightarrow> next_rowid (map au_id (author (db c))))"
  by (cases rule: find_key_cases [of au_url "Author.url a" "author (db c)"])
     (simp_all add: find_or_create_author_def select_author_id_def insert_author_def list_ex_key Let_def)

lemma foc_author_db:
  "db (snd (find_or_create_author a c)) =
     (if Author.url a \<in> set (map au_url (author (db c))) then db c
      else (db c)\<lparr>author := author (db c) @
             [\<lparr>au_id = next_rowid (map au_id (author (db c))), au_url = Author.url a, au_name = name a\<rparr>]\<rparr>)"
  by (cases rule: find_key_cases [of au_url "Author.url a" "author (db c)"])
     (auto simp add: find_or_create_author_def select_author_id_def insert_author_def list_ex_key Let_def)

lemma foc_author_snapshot: "snapshot (snd (find_or_create_author a c)) = snapshot c"
  by (cases rule: find_key_cases [of au_url "Author.url a" "author (db c)"])
     (auto simp add: find_or_create_author_def select_author_id_def insert_author_def list_ex_key Let_def)

lemma foc_subject_fst:
  "fst (find_or_create_subject s c) =
     Inr (case find (\<lambda>r. sub_name r = s) (subject (db c)) of
            Some r \<Rightarrow> su_id r | None \<Rightarrow> next_rowid (map su_id (subject (db c))))"
  by (cases rule: find_key_cases [of sub_name s "subject (db c)"])
     (simp_all add: find_or_create_subject_def select_subject_id_def insert_subject_def list_ex_key Let_def)

lemma foc_subject_db:
  "db (snd (find_or_create_subject s c)) =
     (if s \<in> set (map sub_name (subject (db c))) then db c
      else (db c)\<lparr>subject := subject (db c) @
             [\<lparr>su_id = next_rowid (map su_id (subject (db c))), sub_name = s\<rparr>]\<rparr>)"
  by (cases rule: find_key_cases [of sub_name s "subject (db c)"])
     (auto simp add: find_or_create_subject_def select_subject_id_def insert_subject_def list_ex_key Let_def)

lemma foc_subject_snapshot: "snapshot (snd (find_or_create_subject s c)) = snapshot c"
  by (cases rule: find_key_cases [of sub_name s "subject (db c)"])
     (auto simp add: find_or_create_subject_def select_subject_id_def insert_subject_def list_ex_key Let_def)

lemma insert_book_author_fst:
  "fst (insert_book_author b x c) =
     (if (b, x) \<in> set (book_author (db c)) \<or>
         (b \<in> set (map bk_id (book (db c))) \<and> x \<in> set (map au_id (author (db c))))
      then Inr () else Inl IntegrityError)"
  by (simp add: insert_book_author_def)

lemma insert_book_author_db:
  "db (snd (insert_book_author b x c)) =
     (if (b, x) \<notin> set (book_author (db c)) \<and>
         b \<in> set (map bk_id (book (db c))) \<and> x \<in> set (map au_id (author (db c)))
      then (db c)\<lparr>book_author := book_author (db c) @ [(b, x)]\<rparr> else db c)"
  by (simp add: insert_book_author_def)

lemma insert_book_author_snapshot: "snapshot (snd (insert_book_author b x c)) = snapshot c"
  by (simp add: insert_book_author_def)

lemma insert_book_subject_fst:
  "fst (insert_book_subject b x c) =
     (if (b, x) \<in> set (book_subject (db c)) \<or>
         (b \<in> set (map bk_id (book (db c))) \<and> x \<in> set (map su_id (subject (db c))))
      then Inr () else Inl IntegrityError)"
  by (simp add: insert_book_subject_def)

lemma insert_book_subject_db:
  "db (snd (insert_book_subject b x c)) =
     (if (b, x) \<notin> set (book_subject (db c)) \<and>
         b \<in> set (map bk_id (book (db c))) \<and> x \<in> set (map su_id (subject (db c)))
      then (db c)\<lparr>book_subject := book_subject (db c) @ [(b, x)]\<rparr> else db c)"
  by (simp add: insert_book_subject_def)

lemma insert_book_subject_snapshot: "snapshot (snd (insert_book_subject b x c)) = snapshot c"
  by (simp add: insert_book_subject_def)


lemma save_author_eq:
  "save_author b a c =
     insert_book_author b
       (case find (\<lambda>r. au_url r = Author.url a) (author (db c)) of
          Some r \<Rightarrow> au_id r | None \<Rightarrow> next_rowid (map au_id (author (db c))))
       (snd (find_or_create_author a c))"
proof -
  obtain r c1 where rc: "find_or_create_author a c = (r, c1)" by (cases "find_or_create_author a c")
  with foc_author_fst [of a c] show ?thesis by (simp add: save_author_def)
qed

text \<open>A round whose author is stored and linked changes nothing.\<close>

lemma save_author_settled:
  assumes "find (\<lambda>r. au_url r = Author.url a) (author (db d)) = Some r"
    and "(b, au_id r) \<in> set (book_author (db d))"
  shows "save_author b a d = (Inr (), d)"
  using assms
  by (simp add: save_author_eq find_or_create_author_def select_author_id_def insert_book_author_def)

lemma save_author_stuck:
  assumes "find (\<lambda>r. au_url r = Author.url a) (author (db d)) = Some r"
    and "(b, au_id r) \<notin> set (book_author (db d))"
    and "b \<notin> set (map bk_id (book (db d)))"
  shows "save_author b a d = (Inl IntegrityError, d)"
  using assms
  by (simp add: save_author_eq find_or_create_author_def select_author_id_def insert_book_author_def)

text \<open>What a round leaves behind.\<close>

lemma save_author_frame:
  "book (db (snd (save_author b a c))) = book (db c)"
  "subject (db (snd (save_author b a c))) = subject (db c)"
  "book_subject (db (snd (save_author b a c))) = book_subject (db c)"
  "snapshot (snd (save_author b a c)) = snapshot c"
  by (simp_all add: save_author_eq insert_book_author_db insert_book_author_snapshot
        foc_author_db foc_author_snapshot)

lemma save_author_grows:
  "\<exists>xs. author (db (snd (save_author b a c))) = author (db c) @ xs"
  "\<exists>ys. book_author (db (snd (save_author b a c))) = book_author (db c) @ ys"
  by (simp_all add: save_author_eq insert_book_author_db foc_author_db)

lemma save_author_post:
  "\<exists>r. find (\<lambda>r. au_url r = Author.url a) (author (db (snd (save_author b a c)))) = Some r \<and>
       (fst (save_author b a c) = Inr () \<longrightarrow>
          (b, au_id r) \<in> set (book_author (db (snd (save_author b a c))))) \<and>
       (fst (save_author b a c) \<noteq> Inr () \<longrightarrow>
          fst (save_author b a c) = Inl IntegrityError \<and> b \<notin> set (map bk_id (book (db c))) \<and>
          (b, au_id r) \<notin> set (book_author (db (snd (save_author b a c)))))"
proof (cases rule: find_key_cases [of au_url "Author.url a" "author (db c)"])
  case absent
  let ?row = "\<lparr>au_id = next_rowid (map au_id (author (db c))), au_url = Author.url a, au_name = name a\<rparr>"
  have "find (\<lambda>r. au_url r = Author.url a) (author (db c) @ [?row]) = Some ?row"
    using absent(1) by (simp add: find_append_None)
  with absent show ?thesis
    by (intro exI [of _ ?row])
       (auto simp add: save_author_eq insert_book_author_db insert_book_author_fst foc_author_db
          next_rowid_fresh split: if_splits)
next
  case (present r)
  then show ?thesis
    by (intro exI [of _ r])
       (auto simp add: save_author_eq insert_book_author_db insert_book_author_fst foc_author_db
          split: if_splits)
qed

lemma save_author_failure:
  "fst (save_author b a c) \<noteq> Inr () \<Longrightarrow>
     fst (save_author b a c) = Inl IntegrityError \<and> b \<notin> set (map bk_id (book (db c)))"
proof -
  assume ne: "fst (save_author b a c) \<noteq> Inr ()"
  with save_author_post [of a b c] show ?thesis by blast
qed

text \<open>The loop over the authors.\<close>

lemma save_authors_Cons:
  "save_authors b (a # as) c =
     (if fst (save_author b a c) = Inr () then save_authors b as (snd (save_author b a c))
      else save_author b a c)"
  by (cases "save_author b a c"; cases "fst (save_author b a c)") auto

declare save_authors.simps(2) [simp del]

lemma save_authors_invariant:
  assumes "P c" and "\<And>a c. P c \<Longrightarrow> P (snd (save_author b a c))"
  shows "P (snd (save_authors b as c))"
  using assms(1)
proof (induction as arbitrary: c)
  case Nil
  then show ?case by simp
next
  case (Cons a as)
  from Cons.prems have "P (snd (save_author b a c))" by (rule assms(2))
  with Cons.IH show ?case by (simp add: save_authors_Cons)
qed

lemma save_authors_frame:
  "book (db (snd (save_authors b as c))) = book (db c)"
  "subject (db (snd (save_authors b as c))) = subject (db c)"
  "book_subject (db (snd (save_authors b as c))) = book_subject (db c)"
  "snapshot (snd (save_authors b as c)) = snapshot c"
  by (rule save_authors_invariant, simp, simp add: save_author_frame)+

lemma save_authors_grows:
  "\<exists>xs. author (db (snd (save_authors b as c))) = author (db c) @ xs"
  "\<exists>ys. book_author (db (snd (save_authors b as c))) = book_author (db c) @ ys"
proof -
  show "\<exists>xs. author (db (snd (save_authors b as c))) = author (db c) @ xs"
  proof (rule save_authors_invariant)
    show "\<exists>xs. author (db c) = author (db c) @ xs" by simp
  next
    fix a and c' :: connection assume "\<exists>xs. author (db c') = author (db c) @ xs"
    then obtain xs where "author (db c') = author (db c) @ xs" ..
    moreover obtain xs' where "author (db (snd (save_author b a c'))) = author (db c') @ xs'"
      using save_author_grows(1) by blast
    ultimately show "\<exists>xs. author (db (snd (save_author b a c'))) = author (db c) @ xs" by simp
  qed
  show "\<exists>ys. book_author (db (snd (save_authors b as c))) = book_author (db c) @ ys"
  proof (rule save_authors_invariant)
    show "\<exists>ys. book_author (db c) = book_author (db c) @ ys" by simp
  next
    fix a and c' :: connection assume "\<exists>ys. book_author (db c') = book_author (db c) @ ys"
    then obtain ys where "book_author (db c') = book_author (db c) @ ys" ..
    moreover obtain ys' where "book_author (db (snd (save_author b a c'))) = book_author (db c') @ ys'"
      using save_author_grows(2) by blast
    ultimately show "\<exists>ys. book_author (db (snd (save_author b a c'))) = book_author (db c) @ ys" by simp
  qed
qed

lemma save_authors_failure:
  "fst (save_authors b as c) = Inl e \<Longrightarrow> e = IntegrityError \<and> b \<notin> set (map bk_id (book (db c)))"
proof (induction as arbitrary: c)
  case Nil
  then show ?case by simp
next
  case (Cons a as)
  show ?case
  proof (cases "fst (save_author b a c) = Inr ()")
    case True
    with Cons.prems have "fst (save_authors b as (snd (save_author b a c))) = Inl e"
      by (simp add: save_authors_Cons)
    from Cons.IH [OF this] show ?thesis by (simp add: save_author_frame)
  next
    case False
    from save_author_failure [OF False] Cons.prems False show ?thesis
      by (simp add: save_authors_Cons)
  qed
qed

lemma save_authors_rerun:
  assumes "save_authors b as c = (r, c')"
    and "book (db d) = book (db c')" and "author (db d) = author (db c')"
    and "book_author (db d) = book_author (db c')"
  shows "save_authors b as d = (r, d)"
  using assms
proof (induction as arbitrary: c)
  case Nil
  then show ?case by simp
next
  case (Cons a as)
  let ?c1 = "snd (save_author b a c)"
  obtain row where row:
    "find (\<lambda>r. au_url r = Author.url a) (author (db ?c1)) = Some row"
    "fst (save_author b a c) = Inr () \<longrightarrow> (b, au_id row) \<in> set (book_author (db ?c1))"
    "fst (save_author b a c) \<noteq> Inr () \<longrightarrow>
       fst (save_author b a c) = Inl IntegrityError \<and> b \<notin> set (map bk_id (book (db c))) \<and>
       (b, au_id row) \<notin> set (book_author (db ?c1))"
    using save_author_post [of a b c] by blast
  show ?case
  proof (cases "fst (save_author b a c) = Inr ()")
    case True
    with Cons.prems(1) have rest: "save_authors b as ?c1 = (r, c')"
      by (simp add: save_authors_Cons)
    have "c' = snd (save_authors b as ?c1)" using rest by simp
    then obtain xs ys where
      "author (db c') = author (db ?c1) @ xs" "book_author (db c') = book_author (db ?c1) @ ys"
      using save_authors_grows [of b as ?c1] by auto
    with row(1) row(2) True Cons.prems
    have "find (\<lambda>r. au_url r = Author.url a) (author (db d)) = Some row"
      and "(b, au_id row) \<in> set (book_author (db d))"
      by (simp_all add: find_key_append)
    then have "save_author b a d = (Inr (), d)" by (rule save_author_settled)
    moreover have "save_authors b as d = (r, d)"
      using rest Cons.prems(2-4) by (rule Cons.IH)
    ultimately show ?thesis by (simp add: save_authors_Cons)
  next
    case False
    with Cons.prems(1) have eq: "save_author b a c = (r, c')"
      by (simp add: save_authors_Cons)
    then have c': "c' = ?c1" and r: "r = fst (save_author b a c)" by simp_all
    from row(3) False have "r = Inl IntegrityError" "b \<notin> set (map bk_id (book (db ?c1)))"
      "(b, au_id row) \<notin> set (book_author (db ?c1))"
      by (simp_all add: r save_author_frame)
    with row(1) Cons.prems(2-4) c' have "save_author b a d = (Inl IntegrityError, d)"
      by (intro save_author_stuck [of a d row b]) simp_all
    with \<open>r = Inl IntegrityError\<close> show ?thesis by (simp add: save_authors_Cons)
  qed
qed


lemma save_subject_eq:
  "save_subject b s c =
     insert_book_subject b
       (case find (\<lambda>r. sub_name r = s) (subject (db c)) of
          Some r \<Rightarrow> su_id r | None \<Rightarrow> next_rowid (map su_id (subject (db c))))
       (snd (find_or_create_subject s c))"
proof -
  obtain r c1 where rc: "find_or_create_subject s c = (r, c1)" by (cases "find_or_create_subject s c")
  with foc_subject_fst [of s c] show ?thesis by (simp add: save_subject_def)
qed

text \<open>A round whose subject is stored and linked changes nothing.\<close>

lemma save_subject_settled:
  assumes "find (\<lambda>r. sub_name r = s) (subject (db d)) = Some r"
    and "(b, su_id r) \<in> set (book_subject (db d))"
  shows "save_subject b s d = (Inr (), d)"
  using assms
  by (simp add: save_subject_eq find_or_create_subject_def select_subject_id_def insert_book_subject_def)

lemma save_subject_stuck:
  assumes "find (\<lambda>r. sub_name r = s) (subject (db d)) = Some r"
    and "(b, su_id r) \<notin> set (book_subject (db d))"
    and "b \<notin> set (map bk_id (book (db d)))"
  shows "save_subject b s d = (Inl IntegrityError, d)"
  using assms
  by (simp add: save_subject_eq find_or_create_subject_def select_subject_id_def insert_book_subject_def)

text \<open>What a round leaves behind.\<close>

lemma save_subject_frame:
  "book (db (snd (save_subject b s c))) = book (db c)"
  "author (db (snd (save_subject b s c))) = author (db c)"
  "book_author (db (snd (save_subject b s c))) = book_author (db c)"
  "snapshot (snd (save_subject b s c)) = snapshot c"
  by (simp_all add: save_subject_eq insert_book_subject_db insert_book_subject_snapshot
        foc_subject_db foc_subject_snapshot)

lemma save_subject_grows:
  "\<exists>xs. subject (db (snd (save_subject b s c))) = subject (db c) @ xs"
  "\<exists>ys. book_subject (db (snd (save_subject b s c))) = book_subject (db c) @ ys"
  by (simp_all add: save_subject_eq insert_book_subject_db foc_subject_db)

lemma save_subject_post:
  "\<exists>r. find (\<lambda>r. sub_name r = s) (subject (db (snd (save_subject b s c)))) = Some r \<and>
       (fst (save_subject b s c) = Inr () \<longrightarrow>
          (b, su_id r) \<in> set (book_subject (db (snd (save_subject b s c))))) \<and>
       (fst (save_subject b s c) \<noteq> Inr () \<longrightarrow>
          fst (save_subject b s c) = Inl IntegrityError \<and> b \<notin> set (map bk_id (book (db c))) \<and>
          (b, su_id r) \<notin> set (book_subject (db (snd (save_subject b s c)))))"
proof (cases rule: find_key_cases [of sub_name "s" "subject (db c)"])
  case absent
  let ?row = "\<lparr>su_id = next_rowid (map su_id (subject (db c))), sub_name = s\<rparr>"
  have "find (\<lambda>r. sub_name r = s) (subject (db c) @ [?row]) = Some ?row"
    using absent(1) by (simp add: find_append_None)
  with absent show ?thesis
    by (intro exI [of _ ?row])
       (auto simp add: save_subject_eq insert_book_subject_db insert_book_subject_fst foc_subject_db
          next_rowid_fresh split: if_splits)
next
  case (present r)
  then show ?thesis
    by (intro exI [of _ r])
       (auto simp add: save_subject_eq insert_book_subject_db insert_book_subject_fst foc_subject_db
          split: if_splits)
qed

lemma save_subject_failure:
  "fst (save_subject b s c) \<noteq> Inr () \<Longrightarrow>
     fst (save_subject b s c) = Inl IntegrityError \<and> b \<notin> set (map bk_id (book (db c)))"
proof -
  assume ne: "fst (save_subject b s c) \<noteq> Inr ()"
  with save_subject_post [of s b c] show ?thesis by blast
qed

text \<open>The loop over the subjects.\<close>

lemma save_subjects_Cons:
  "save_subjects b (s # ss) c =
     (if fst (save_subject b s c) = Inr () then save_subjects b ss (snd (save_subject b s c))
      else save_subject b s c)"
  by (cases "save_subject b s c"; cases "fst (save_subject b s c)") auto

declare save_subjects.simps(2) [simp del]

lemma save_subjects_invariant:
  assumes "P c" and "\<And>s c. P c \<Longrightarrow> P (snd (save_subject b s c))"
  shows "P (snd (save_subjects b ss c))"
  using assms(1)
proof (induction ss arbitrary: c)
  case Nil
  then show ?case by simp
next
  case (Cons s ss)
  from Cons.prems have "P (snd (save_subject b s c))" by (rule assms(2))
  with Cons.IH show ?case by (simp add: save_subjects_Cons)
qed

lemma save_subjects_frame:
  "book (db (snd (save_subjects b ss c))) = book (db c)"
  "author (db (snd (save_subjects b ss c))) = author (db c)"
  "book_author (db (snd (save_subjects b ss c))) = book_author (db c)"
  "snapshot (snd (save_subjects b ss c)) = snapshot c"
  by (rule save_subjects_invariant, simp, simp add: save_subject_frame)+

lemma save_subjects_grows:
  "\<exists>xs. subject (db (snd (save_subjects b ss c))) = subject (db c) @ xs"
  "\<exists>ys. book_subject (db (snd (save_subjects b ss c))) = book_subject (db c) @ ys"
proof -
  show "\<exists>xs. subject (db (snd (save_subjects b ss c))) = subject (db c) @ xs"
  proof (rule save_subjects_invariant)
    show "\<exists>xs. subject (db c) = subject (db c) @ xs" by simp
  next
    fix s and c' :: connection assume "\<exists>xs. subject (db c') = subject (db c) @ xs"
    then obtain xs where "subject (db c') = subject (db c) @ xs" ..
    moreover obtain xs' where "subject (db (snd (save_subject b s c'))) = subject (db c') @ xs'"
      using save_subject_grows(1) by blast
    ultimately show "\<exists>xs. subject (db (snd (save_subject b s c'))) = subject (db c) @ xs" by simp
  qed
  show "\<exists>ys. book_subject (db (snd (save_subjects b ss c))) = book_subject (db c) @ ys"
  proof (rule save_subjects_invariant)
    show "\<exists>ys. book_subject (db c) = book_subject (db c) @ ys" by simp
  next
    fix s and c' :: connection assume "\<exists>ys. book_subject (db c') = book_subject (db c) @ ys"
    then obtain ys where "book_subject (db c') = book_subject (db c) @ ys" ..
    moreover obtain ys' where "book_subject (db (snd (save_subject b s c'))) = book_subject (db c') @ ys'"
      using save_subject_grows(2) by blast
    ultimately show "\<exists>ys. book_subject (db (snd (save_subject b s c'))) = book_subject (db c) @ ys" by simp
  qed
qed

lemma save_subjects_failure:
  "fst (save_subjects b ss c) = Inl e \<Longrightarrow> e = IntegrityError \<and> b \<notin> set (map bk_id (book (db c)))"
proof (induction ss arbitrary: c)
  case Nil
  then show ?case by simp
next
  case (Cons s ss)
  show ?case
  proof (cases "fst (save_subject b s c) = Inr ()")
    case True
    with Cons.prems have "fst (save_subjects b ss (snd (save_subject b s c))) = Inl e"
      by (simp add: save_subjects_Cons)
    from Cons.IH [OF this] show ?thesis by (simp add: save_subject_frame)
  next
    case False
    from save_subject_failure [OF False] Cons.prems False show ?thesis
      by (simp add: save_subjects_Cons)
  qed
qed

lemma save_subjects_rerun:
  assumes "save_subjects b ss c = (r, c')"
    and "book (db d) = book (db c')" and "subject (db d) = subject (db c')"
    and "book_subject (db d) = book_subject (db c')"
  shows "save_subjects b ss d = (r, d)"
  using assms
proof (induction ss arbitrary: c)
  case Nil
  then show ?case by simp
next
  case (Cons s ss)
  let ?c1 = "snd (save_subject b s c)"
  obtain row where row:
    "find (\<lambda>r. sub_name r = s) (subject (db ?c1)) = Some row"
    "fst (save_subject b s c) = Inr () \<longrightarrow> (b, su_id row) \<in> set (book_subject (db ?c1))"
    "fst (save_subject b s c) \<noteq> Inr () \<longrightarrow>
       fst (save_subject b s c) = Inl IntegrityError \<and> b \<notin> set (map bk_id (book (db c))) \<and>
       (b, su_id row) \<notin> set (book_subject (db ?c1))"
    using save_subject_post [of s b c] by blast
  show ?case
  proof (cases "fst (save_subject b s c) = Inr ()")
    case True
    with Cons.prems(1) have rest: "save_subjects b ss ?c1 = (r, c')"
      by (simp add: save_subjects_Cons)
    have "c' = snd (save_subjects b ss ?c1)" using rest by simp
    then obtain xs ys where
      "subject (db c') = subject (db ?c1) @ xs" "book_subject (db c') = book_subject (db ?c1) @ ys"
      using save_subjects_grows [of b ss ?c1] by auto
    with row(1) row(2) True Cons.prems
    have "find (\<lambda>r. sub_name r = s) (subject (db d)) = Some row"
      and "(b, su_id row) \<in> set (book_subject (db d))"
      by (simp_all add: find_key_append)
    then have "save_subject b s d = (Inr (), d)" by (rule save_subject_settled)
    moreover have "save_subjects b ss d = (r, d)"
      using rest Cons.prems(2-4) by (rule Cons.IH)
    ultimately show ?thesis by (simp add: save_subjects_Cons)
  next
    case False
    with Cons.prems(1) have eq: "save_subject b s c = (r, c')"
      by (simp add: save_subjects_Cons)
    then have c': "c' = ?c1" and r: "r = fst (save_subject b s c)" by simp_all
    from row(3) False have "r = Inl IntegrityError" "b \<notin> set (map bk_id (book (db ?c1)))"
      "(b, su_id row) \<notin> set (book_subject (db ?c1))"
      by (simp_all add: r save_subject_frame)
    with row(1) Cons.prems(2-4) c' have "save_subject b s d = (Inl IntegrityError, d)"
      by (intro save_subject_stuck [of s d row b]) simp_all
    with \<open>r = Inl IntegrityError\<close> show ?thesis by (simp add: save_subjects_Cons)
  qed
qed



text \<open>The book identity.\<close>

lemma resolve_book_id_found:
  assumes "find (\<lambda>r. bk_isbn r = isbn b) (book (db c)) = Some r"
  shows "resolve_book_id b c = (Inr (bk_id r), c)"
  using assms by (simp add: resolve_book_id_def select_book_id_def)

lemma resolve_book_id_conflict:
  assumes "isbn b \<notin> set (map bk_isbn (book (db c)))" and "Book.url b \<in> set (map bk_url (book (db c)))"
    and "snapshot c = None"
  shows "fst (resolve_book_id b c) = Inr (last_insert_rowid c)"
    and "db (snd (resolve_book_id b c)) = db c"
    and "snapshot (snd (resolve_book_id b c)) = None"
  using assms
  by (simp_all add: resolve_book_id_def select_book_id_def find_key_None [THEN iffD2] transaction_def
        execute_BEGIN_def insert_book_def list_ex_key commit_def)

lemma resolve_book_id_new:
  assumes "isbn b \<notin> set (map bk_isbn (book (db c)))" and "Book.url b \<notin> set (map bk_url (book (db c)))"
    and "snapshot c = None"
  shows "fst (resolve_book_id b c) = Inr (next_rowid (map bk_id (book (db c))))"
    and "db (snd (resolve_book_id b c)) = (db c)\<lparr>book := book (db c) @
           [\<lparr>bk_id = next_rowid (map bk_id (book (db c))), bk_url = Book.url b, bk_isbn = isbn b,
             bk_title = title b, bk_subtitle = subtitle b, bk_cover_url = cover_url b\<rparr>]\<rparr>"
    and "snapshot (snd (resolve_book_id b c)) = None"
  using assms
  by (simp_all add: resolve_book_id_def select_book_id_def find_key_None [THEN iffD2] transaction_def
        execute_BEGIN_def insert_book_def list_ex_key commit_def Let_def)

lemma resolve_book_id_ok:
  assumes "snapshot c = None"
  shows "\<exists>bid. fst (resolve_book_id b c) = Inr bid"
    and "snapshot (snd (resolve_book_id b c)) = None"
    and "author (db (snd (resolve_book_id b c))) = author (db c)"
    and "subject (db (snd (resolve_book_id b c))) = subject (db c)"
    and "book_author (db (snd (resolve_book_id b c))) = book_author (db c)"
    and "book_subject (db (snd (resolve_book_id b c))) = book_subject (db c)"
proof -
  consider r where "find (\<lambda>r. bk_isbn r = isbn b) (book (db c)) = Some r"
    | "isbn b \<notin> set (map bk_isbn (book (db c)))" "Book.url b \<in> set (map bk_url (book (db c)))"
    | "isbn b \<notin> set (map bk_isbn (book (db c)))" "Book.url b \<notin> set (map bk_url (book (db c)))"
    by (cases rule: find_key_cases [of bk_isbn "isbn b" "book (db c)"]) blast+
  then have "(\<exists>bid. fst (resolve_book_id b c) = Inr bid) \<and> snapshot (snd (resolve_book_id b c)) = None \<and>
    author (db (snd (resolve_book_id b c))) = author (db c) \<and>
    subject (db (snd (resolve_book_id b c))) = subject (db c) \<and>
    book_author (db (snd (resolve_book_id b c))) = book_author (db c) \<and>
    book_subject (db (snd (resolve_book_id b c))) = book_subject (db c)"
  proof cases
    case 1
    then show ?thesis using assms by (simp add: resolve_book_id_found)
  next
    case 2
    then show ?thesis using assms by (simp add: resolve_book_id_conflict)
  next
    case 3
    then show ?thesis using assms by (simp add: resolve_book_id_new)
  qed
  then show "\<exists>bid. fst (resolve_book_id b c) = Inr bid"
    and "snapshot (snd (resolve_book_id b c)) = None"
    and "author (db (snd (resolve_book_id b c))) = author (db c)"
    and "subject (db (snd (resolve_book_id b c))) = subject (db c)"
    and "book_author (db (snd (resolve_book_id b c))) = book_author (db c)"
    and "book_subject (db (snd (resolve_book_id b c))) = book_subject (db c)"
    by simp_all
qed

text \<open>\<^verbatim>\<open>save\<close> in terms of its three stages.\<close>

lemma save_body_stages:
  assumes "fst (resolve_book_id b c) = Inr bid"
  shows "save_body b c =
     (let c1 = snd (resolve_book_id b c); ra = save_authors bid (authors b) c1
      in if fst ra = Inr ()
         then (let rs = save_subjects bid (subjects b) (snd ra)
               in if fst rs = Inr () then (Inr (), commit (snd rs)) else rs)
         else ra)"
proof -
  obtain c1 where 1: "resolve_book_id b c = (Inr bid, c1)"
    using assms by (cases "resolve_book_id b c") simp
  obtain ra c2 where 2: "save_authors bid (authors b) c1 = (ra, c2)"
    by (cases "save_authors bid (authors b) c1")
  obtain rs c3 where 3: "save_subjects bid (subjects b) c2 = (rs, c3)"
    by (cases "save_subjects bid (subjects b) c2")
  show ?thesis
    by (cases ra; cases rs) (simp_all add: save_body_def 1 2 3)
qed

lemma save_stages:
  assumes "fst (resolve_book_id b (connect t)) = Inr bid"
  shows "save b t =
     (let c1 = snd (resolve_book_id b (connect t)); ra = save_authors bid (authors b) c1
      in if fst ra = Inr ()
         then (let rs = save_subjects bid (subjects b) (snd ra) in (fst rs, db (snd rs)))
         else (fst ra, db (snd ra)))"
proof -
  have s0: "snapshot (connect t) = None" by (simp add: connect_def)
  have s1: "snapshot (snd (resolve_book_id b (connect t))) = None"
    using s0 by (rule resolve_book_id_ok)
  show ?thesis
    by (auto simp add: save_def save_body_stages [OF assms] Let_def split_beta close_def commit_def
          save_authors_frame save_subjects_frame s1)
qed

section \<open>Parent rows of the links\<close>

lemma find_or_create_author_row:
  "\<exists>a_id r. fst (find_or_create_author a c) = Inr a_id \<and>
      r \<in> set (author (db (snd (find_or_create_author a c)))) \<and>
      au_id r = a_id \<and> au_url r = Author.url a \<and>
      (select_author_id (Author.url a) c = None \<longrightarrow>
         author (db (snd (find_or_create_author a c))) = author (db c) @ [r] \<and>
         last_insert_rowid (snd (find_or_create_author a c)) = a_id)"
proof (cases rule: find_key_cases [of au_url "Author.url a" "author (db c)"])
  case absent
  then show ?thesis
    by (simp add: find_or_create_author_def select_author_id_def insert_author_def list_ex_key Let_def)
next
  case (present r)
  then show ?thesis
    by (intro exI [of _ "au_id r"] exI [of _ r])
       (simp add: find_or_create_author_def select_author_id_def)
qed

lemma find_or_create_subject_row:
  "\<exists>s_id r. fst (find_or_create_subject s c) = Inr s_id \<and>
      r \<in> set (subject (db (snd (find_or_create_subject s c)))) \<and>
      su_id r = s_id \<and> sub_name r = s \<and>
      (select_subject_id s c = None \<longrightarrow>
         subject (db (snd (find_or_create_subject s c))) = subject (db c) @ [r] \<and>
         last_insert_rowid (snd (find_or_create_subject s c)) = s_id)"
proof (cases rule: find_key_cases [of sub_name s "subject (db c)"])
  case absent
  then show ?thesis
    by (simp add: find_or_create_subject_def select_subject_id_def insert_subject_def list_ex_key Let_def)
next
  case (present r)
  then show ?thesis
    by (intro exI [of _ "su_id r"] exI [of _ r])
       (simp add: find_or_create_subject_def select_subject_id_def)
qed

text \<open>
  Claim C10. In every round of the two loops, whatever the session's state, the id
  that the lookup or the insert yields is the id of a stored row with the author's
  url (the subject's name); when the lookup finds nothing, the insert appends exactly
  that row and the id is the connection's last insert rowid. So a link insert in
  these loops can fail only because \<^verbatim>\<open>b_id\<close> has no book row: whenever a loop ends
  with an exception, it is \<^verbatim>\<open>IntegrityError\<close> and no book row has the id \<^verbatim>\<open>b_id\<close>.
\<close>

theorem link_parent_rows_exist:
  "(\<exists>a_id r. fst (find_or_create_author a c) = Inr a_id \<and>
      r \<in> set (author (db (snd (find_or_create_author a c)))) \<and>
      au_id r = a_id \<and> au_url r = Author.url a \<and>
      (select_author_id (Author.url a) c = None \<longrightarrow>
         author (db (snd (find_or_create_author a c))) = author (db c) @ [r] \<and>
         last_insert_rowid (snd (find_or_create_author a c)) = a_id)) \<and>
   (\<exists>s_id r. fst (find_or_create_subject s c) = Inr s_id \<and>
      r \<in> set (subject (db (snd (find_or_create_subject s c)))) \<and>
      su_id r = s_id \<and> sub_name r = s \<and>
      (select_subject_id s c = None \<longrightarrow>
         subject (db (snd (find_or_create_subject s c))) = subject (db c) @ [r] \<and>
         last_insert_rowid (snd (find_or_create_subject s c)) = s_id)) \<and>
   (\<forall>e. fst (save_authors b_id as c) = Inl e \<longrightarrow>
      e = IntegrityError \<and> b_id \<notin> set (map bk_id (book (db c)))) \<and>
   (\<forall>e. fst (save_subjects b_id ss c) = Inl e \<longrightarrow>
      e = IntegrityError \<and> b_id \<notin> set (map bk_id (book (db c))))"
  using find_or_create_author_row [of a c] find_or_create_subject_row [of s c]
    save_authors_failure [of b_id as c] save_subjects_failure [of b_id ss c]
  by blast

theorem link_parent_rows_exist_witness:
  "fst (find_or_create_author author_a2 (connect store_b1)) = Inr 2 \<and>
   author (db (snd (find_or_create_author author_a2 (connect store_b1)))) =
     author store_b1 @ [\<lparr>au_id = 2, au_url = ''https://ol/a2'', au_name = ''B. Writer''\<rparr>] \<and>
   fst (find_or_create_subject ''Economics'' (connect store_b1)) = Inr 1 \<and>
   fst (save_authors 0 [author_a1] (connect store_b1)) = Inl IntegrityError \<and>
   0 \<notin> set (map bk_id (book store_b1)) \<and>
   fst (save_subjects 1 [''History''] (connect store_b1)) = Inr ()"
  using link_parent_rows_exist [of author_a2 "connect store_b1" "''Economics''" 0 "[author_a1]" "[''History'']"]
  by (simp add: store_b1_def book_b1_def author_a1_def author_a2_def engine_defs)

section \<open>Saving twice\<close>

lemma resolve_book_id_again:
  assumes "fst (resolve_book_id b (connect t)) = Inr bid"
    and "book t' = book (db (snd (resolve_book_id b (connect t))))"
  shows "fst (resolve_book_id b (connect t')) = Inr bid \<and> db (snd (resolve_book_id b (connect t'))) = t'"
proof -
  have s0: "snapshot (connect t) = None" "snapshot (connect t') = None"
    "db (connect t) = t" "db (connect t') = t'"
    "last_insert_rowid (connect t) = 0" "last_insert_rowid (connect t') = 0"
    by (simp_all add: connect_def)
  consider r where "find (\<lambda>r. bk_isbn r = isbn b) (book t) = Some r"
    | "isbn b \<notin> set (map bk_isbn (book t))" "Book.url b \<in> set (map bk_url (book t))"
    | "isbn b \<notin> set (map bk_isbn (book t))" "Book.url b \<notin> set (map bk_url (book t))"
    by (cases rule: find_key_cases [of bk_isbn "isbn b" "book t"]) blast+
  then show ?thesis
  proof cases
    case 1
    then have "resolve_book_id b (connect t) = (Inr (bk_id r), connect t)"
      by (intro resolve_book_id_found) (simp add: s0)
    with assms have "bid = bk_id r" "book t' = book t" by (simp_all add: s0)
    with 1 have "resolve_book_id b (connect t') = (Inr bid, connect t')"
      by (simp add: resolve_book_id_found s0)
    then show ?thesis by (simp add: s0)
  next
    case 2
    with assms resolve_book_id_conflict [of b "connect t"]
    have "bid = 0" "book t' = book t" by (simp_all add: s0)
    with 2 resolve_book_id_conflict [of b "connect t'"] show ?thesis by (simp add: s0)
  next
    case 3
    let ?row = "\<lparr>bk_id = next_rowid (map bk_id (book t)), bk_url = Book.url b, bk_isbn = isbn b,
             bk_title = title b, bk_subtitle = subtitle b, bk_cover_url = cover_url b\<rparr>"
    from 3 assms resolve_book_id_new [of b "connect t"]
    have "bid = bk_id ?row" "book t' = book t @ [?row]" by (simp_all add: s0)
    moreover have "find (\<lambda>r. bk_isbn r = isbn b) (book t @ [?row]) = Some ?row"
      using 3(1) by (simp add: find_append_None find_key_None [THEN iffD2])
    ultimately have "resolve_book_id b (connect t') = (Inr bid, connect t')"
      by (simp add: resolve_book_id_found s0)
    then show ?thesis by (simp add: s0)
  qed
qed

text \<open>
  Claim C2. Saving a book a second time changes nothing: from any store, the second
  call leaves all five tables exactly as the first call left them (hence with the
  same row counts), and it ends the same way, normally or with the same exception.
\<close>

theorem save_idempotent: "save b (snd (save b t)) = save b t"
proof -
  define t' where "t' = snd (save b t)"
  define c1 where "c1 = snd (resolve_book_id b (connect t))"
  define d1 where "d1 = snd (resolve_book_id b (connect t'))"
  have s0: "snapshot (connect t) = None" "snapshot (connect t') = None"
    by (simp_all add: connect_def)
  obtain bid where bid: "fst (resolve_book_id b (connect t)) = Inr bid"
    using resolve_book_id_ok(1) [OF s0(1)] by blast
  obtain ra c2 where ra: "save_authors bid (authors b) c1 = (ra, c2)"
    by (cases "save_authors bid (authors b) c1")
  obtain rs c3 where rs: "save_subjects bid (subjects b) c2 = (rs, c3)"
    by (cases "save_subjects bid (subjects b) c2")
  have c2: "c2 = snd (save_authors bid (authors b) c1)" using ra by simp
  have c3: "c3 = snd (save_subjects bid (subjects b) c2)" using rs by simp
  have first: "save b t = (if ra = Inr () then (rs, db c3) else (ra, db c2))"
    using ra rs by (simp add: save_stages [OF bid] c1_def [symmetric])
  then have t': "t' = (if ra = Inr () then db c3 else db c2)" by (simp add: t'_def)
  have book2: "book (db c2) = book (db c1)" by (simp add: c2 save_authors_frame)
  have book3: "book (db c3) = book (db c2)" "author (db c3) = author (db c2)"
    "book_author (db c3) = book_author (db c2)"
    by (simp_all add: c3 save_subjects_frame)
  have "book t' = book (db c1)" by (simp add: t' book2 book3)
  with bid have again: "fst (resolve_book_id b (connect t')) = Inr bid" "db d1 = t'"
    using resolve_book_id_again [of b t bid t'] by (simp_all add: c1_def d1_def)
  have second: "save b t' =
     (let ra' = save_authors bid (authors b) d1
      in if fst ra' = Inr ()
         then (let rs' = save_subjects bid (subjects b) (snd ra') in (fst rs', db (snd rs')))
         else (fst ra', db (snd ra')))"
    by (simp add: save_stages [OF again(1)] d1_def [symmetric])
  have "save b t' = (if ra = Inr () then (rs, db c3) else (ra, db c2))"
  proof (cases "ra = Inr ()")
    case True
    have "save_authors bid (authors b) d1 = (ra, d1)"
      using ra by (rule save_authors_rerun) (simp_all add: again t' True book3)
    moreover have "save_subjects bid (subjects b) d1 = (rs, d1)"
      using rs by (rule save_subjects_rerun) (simp_all add: again t' True)
    ultimately have "save b t' = (rs, db d1)" using True by (simp add: second)
    then show ?thesis using True by (simp add: again(2) t')
  next
    case False
    have "save_authors bid (authors b) d1 = (ra, d1)"
      using ra by (rule save_authors_rerun) (simp_all add: again t' False)
    then have "save b t' = (ra, db d1)" using False by (simp add: second)
    then show ?thesis using False by (simp add: again(2) t')
  qed
  with first show ?thesis by (simp add: t'_def)
qed

theorem save_idempotent_witness:
  "save book_b2 (snd (save book_b2 store_b1)) = (Inr (), snd (save book_b2 store_b1)) \<and>
   length (book (snd (save book_b2 (snd (save book_b2 store_b1))))) = 2 \<and>
   length (author (snd (save book_b2 (snd (save book_b2 store_b1))))) = 2 \<and>
   length (subject (snd (save book_b2 (snd (save book_b2 store_b1))))) = 2 \<and>
   length (book_author (snd (save book_b2 (snd (save book_b2 store_b1))))) = 3 \<and>
   length (book_subject (snd (save book_b2 (snd (save book_b2 store_b1))))) = 3"
proof -
  have once: "save book_b2 store_b1 =
    (Inr (),
     \<lparr>book = [\<lparr>bk_id = 1, bk_url = ''https://ol/b1'', bk_isbn = ''9780226550275'',
                bk_title = ''T'', bk_subtitle = None, bk_cover_url = None\<rparr>,
              \<lparr>bk_id = 2, bk_url = ''https://ol/b2'', bk_isbn = ''9780140449136'',
                bk_title = ''U'', bk_subtitle = Some ''S'', bk_cover_url = Some ''https://ol/c2''\<rparr>],
      author = [\<lparr>au_id = 1, au_url = ''https://ol/a1'', au_name = ''A. Author''\<rparr>,
                \<lparr>au_id = 2, au_url = ''https://ol/a2'', au_name = ''B. Writer''\<rparr>],
      subject = [\<lparr>su_id = 1, sub_name = ''Economics''\<rparr>, \<lparr>su_id = 2, sub_name = ''History''\<rparr>],
      book_author = [(1, 1), (2, 1), (2, 2)],
      book_subject = [(1, 1), (2, 1), (2, 2)]\<rparr>)"
    by (simp add: store_b1_def book_b1_def book_b2_def author_a1_def author_a2_def engine_defs)
  from save_idempotent [of book_b2 store_b1] show ?thesis
    by (simp add: once)
qed

section \<open>Consistency of reachable stores\<close>

lemma consistent_add_author:
  assumes "consistent t" and "u \<notin> set (map au_url (author t))"
  shows "consistent (t\<lparr>author := author t @
           [\<lparr>au_id = next_rowid (map au_id (author t)), au_url = u, au_name = n\<rparr>]\<rparr>)"
  using assms next_rowid_fresh [of "map au_id (author t)"]
  by (auto simp: consistent_def unique_rows_def ids_ok_def links_ok_def list_all_iff)

lemma consistent_add_subject:
  assumes "consistent t" and "s \<notin> set (map sub_name (subject t))"
  shows "consistent (t\<lparr>subject := subject t @
           [\<lparr>su_id = next_rowid (map su_id (subject t)), sub_name = s\<rparr>]\<rparr>)"
  using assms next_rowid_fresh [of "map su_id (subject t)"]
  by (auto simp: consistent_def unique_rows_def ids_ok_def links_ok_def list_all_iff)

lemma consistent_add_book:
  assumes "consistent t" and "u \<notin> set (map bk_url (book t))" and "i \<notin> set (map bk_isbn (book t))"
  shows "consistent (t\<lparr>book := book t @
           [\<lparr>bk_id = next_rowid (map bk_id (book t)), bk_url = u, bk_isbn = i,
             bk_title = ti, bk_subtitle = st, bk_cover_url = cu\<rparr>]\<rparr>)"
proof -
  from assms(1) have "list_all (\<lambda>i. 0 < i) (map bk_id (book t))"
    by (simp add: consistent_def ids_ok_def)
  then have "0 < next_rowid (map bk_id (book t))" by (rule next_rowid_pos)
  with assms next_rowid_fresh [of "map bk_id (book t)"] show ?thesis
    by (auto simp: consistent_def unique_rows_def ids_ok_def links_ok_def list_all_iff)
qed

lemma consistent_add_book_author:
  assumes "consistent t" and "(b, x) \<notin> set (book_author t)"
    and "b \<in> set (map bk_id (book t))" and "x \<in> set (map au_id (author t))"
  shows "consistent (t\<lparr>book_author := book_author t @ [(b, x)]\<rparr>)"
  using assms
  by (auto simp: consistent_def unique_rows_def ids_ok_def links_ok_def list_all_iff)

lemma consistent_add_book_subject:
  assumes "consistent t" and "(b, x) \<notin> set (book_subject t)"
    and "b \<in> set (map bk_id (book t))" and "x \<in> set (map su_id (subject t))"
  shows "consistent (t\<lparr>book_subject := book_subject t @ [(b, x)]\<rparr>)"
  using assms
  by (auto simp: consistent_def unique_rows_def ids_ok_def links_ok_def list_all_iff)

lemma consistent_save_author:
  assumes "consistent (db c)"
  shows "consistent (db (snd (save_author b a c)))"
proof -
  have 1: "consistent (db (snd (find_or_create_author a c)))"
    using assms by (simp add: foc_author_db consistent_add_author)
  show ?thesis
    unfolding save_author_eq insert_book_author_db
    using 1 by (simp add: consistent_add_book_author)
qed

lemma consistent_save_subject:
  assumes "consistent (db c)"
  shows "consistent (db (snd (save_subject b s c)))"
proof -
  have 1: "consistent (db (snd (find_or_create_subject s c)))"
    using assms by (simp add: foc_subject_db consistent_add_subject)
  show ?thesis
    unfolding save_subject_eq insert_book_subject_db
    using 1 by (simp add: consistent_add_book_subject)
qed

lemma consistent_save_authors:
  "consistent (db c) \<Longrightarrow> consistent (db (snd (save_authors b as c)))"
  by (rule save_authors_invariant) (simp_all add: consistent_save_author)

lemma consistent_save_subjects:
  "consistent (db c) \<Longrightarrow> consistent (db (snd (save_subjects b ss c)))"
  by (rule save_subjects_invariant) (simp_all add: consistent_save_subject)

lemma consistent_resolve_book_id:
  assumes "consistent (db c)" and "snapshot c = None"
  shows "consistent (db (snd (resolve_book_id b c)))"
proof -
  consider r where "find (\<lambda>r. bk_isbn r = isbn b) (book (db c)) = Some r"
    | "isbn b \<notin> set (map bk_isbn (book (db c)))" "Book.url b \<in> set (map bk_url (book (db c)))"
    | "isbn b \<notin> set (map bk_isbn (book (db c)))" "Book.url b \<notin> set (map bk_url (book (db c)))"
    by (cases rule: find_key_cases [of bk_isbn "isbn b" "book (db c)"]) blast+
  then show ?thesis
  proof cases
    case 1
    then show ?thesis using assms by (simp add: resolve_book_id_found)
  next
    case 2
    then show ?thesis using assms by (simp add: resolve_book_id_conflict)
  next
    case 3
    then show ?thesis using assms by (simp add: resolve_book_id_new consistent_add_book)
  qed
qed

lemma save_store:
  "\<exists>bid. fst (resolve_book_id b (connect t)) = Inr bid \<and>
     snd (save b t) =
       (let ra = save_authors bid (authors b) (snd (resolve_book_id b (connect t)))
        in if fst ra = Inr () then db (snd (save_subjects bid (subjects b) (snd ra))) else db (snd ra))"
proof -
  have "snapshot (connect t) = None" by (simp add: connect_def)
  then obtain bid where bid: "fst (resolve_book_id b (connect t)) = Inr bid"
    using resolve_book_id_ok(1) by blast
  then show ?thesis by (auto simp: save_stages [OF bid] Let_def)
qed

lemma consistent_save:
  assumes "consistent t"
  shows "consistent (snd (save b t))"
proof -
  have "snapshot (connect t) = None" "db (connect t) = t" by (simp_all add: connect_def)
  with assms have "consistent (db (snd (resolve_book_id b (connect t))))"
    by (simp add: consistent_resolve_book_id)
  with save_store [of b t] show ?thesis
    by (auto simp: Let_def consistent_save_authors consistent_save_subjects)
qed

lemma consistent_empty: "consistent empty_database"
  by (simp add: consistent_def unique_rows_def ids_ok_def links_ok_def empty_database_def)

lemma consistent_reachable: "reachable t \<Longrightarrow> consistent t"
proof (induction rule: reachable.induct)
  case reachable_empty
  show ?case by (rule consistent_empty)
next
  case (reachable_save t b)
  then show ?case by (simp add: consistent_save)
next
  case (reachable_from_db t i)
  then show ?case
    by (simp add: from_db_def from_db_body_def connect_def close_def split: option.splits)
qed

lemma save_authors_ok:
  "b \<in> set (map bk_id (book (db c))) \<Longrightarrow> fst (save_authors b as c) = Inr ()"
  using save_authors_failure [of b as c] by (cases "fst (save_authors b as c)") auto

lemma save_subjects_ok:
  "b \<in> set (map bk_id (book (db c))) \<Longrightarrow> fst (save_subjects b ss c) = Inr ()"
  using save_subjects_failure [of b ss c] by (cases "fst (save_subjects b ss c)") auto






lemma distinct_key_filter:
  "distinct (map f xs) \<Longrightarrow> r \<in> set xs \<Longrightarrow> filter (\<lambda>x. f x = f r) xs = [r]"
proof (induction xs)
  case Nil
  then show ?case by simp
next
  case (Cons x xs)
  show ?case
  proof (cases "x = r")
    case True
    with Cons.prems have "f r \<notin> f ` set xs" by simp
    then have "\<forall>y\<in>set xs. f y \<noteq> f r" by (metis imageI)
    then have "filter (\<lambda>x. f x = f r) xs = []" by (simp add: filter_empty_conv)
    then show ?thesis using True by simp
  next
    case False
    with Cons.prems have "r \<in> set xs" by simp
    moreover from this Cons.prems have "f x \<noteq> f r" by (metis distinct.simps(2) imageI list.simps(9) set_map)
    ultimately have "r \<in> set xs" "f x \<noteq> f r" by simp_all
    with Cons show ?thesis by simp
  qed
qed






section \<open>Saving and loading again\<close>

lemma key_notin_image: "k \<notin> f ` A \<Longrightarrow> x \<in> A \<Longrightarrow> f x \<noteq> k"
  by blast

lemma save_author_db_cases:
  assumes "consistent (db c)" and "b \<in> set (map bk_id (book (db c)))"
  obtains (created) "Author.url a \<notin> set (map au_url (author (db c)))"
      "db (snd (save_author b a c)) = (db c)\<lparr>
         author := author (db c) @
           [\<lparr>au_id = next_rowid (map au_id (author (db c))), au_url = Author.url a, au_name = name a\<rparr>],
         book_author := book_author (db c) @ [(b, next_rowid (map au_id (author (db c))))]\<rparr>"
    | (linked) r where "r \<in> set (author (db c))" "au_url r = Author.url a"
      "(b, au_id r) \<notin> set (book_author (db c))"
      "db (snd (save_author b a c)) = (db c)\<lparr>book_author := book_author (db c) @ [(b, au_id r)]\<rparr>"
    | (settled) r where "r \<in> set (author (db c))" "au_url r = Author.url a"
      "(b, au_id r) \<in> set (book_author (db c))"
      "db (snd (save_author b a c)) = db c"
proof (cases rule: find_key_cases [of au_url "Author.url a" "author (db c)"])
  case absent
  let ?n = "next_rowid (map au_id (author (db c)))"
  have "?n \<notin> set (map au_id (author (db c)))" by (rule next_rowid_fresh)
  moreover have "\<forall>l\<in>set (book_author (db c)). snd l \<in> set (map au_id (author (db c)))"
    using assms(1) by (simp add: consistent_def links_ok_def list_all_iff)
  ultimately have "(b, ?n) \<notin> set (book_author (db c))" by force
  with absent assms(2) have
    "db (snd (save_author b a c)) = (db c)\<lparr>
         author := author (db c) @ [\<lparr>au_id = ?n, au_url = Author.url a, au_name = name a\<rparr>],
         book_author := book_author (db c) @ [(b, ?n)]\<rparr>"
    by (simp add: save_author_eq insert_book_author_db foc_author_db)
  with absent(2) show ?thesis by (rule created)
next
  case (present r)
  then have in_ids: "au_id r \<in> set (map au_id (author (db c)))" by force
  show ?thesis
  proof (cases "(b, au_id r) \<in> set (book_author (db c))")
    case True
    with present have "db (snd (save_author b a c)) = db c"
      by (simp add: save_author_eq insert_book_author_db foc_author_db)
    with present(2,3) True show ?thesis by (rule settled)
  next
    case False
    with present assms(2) in_ids
    have "db (snd (save_author b a c)) = (db c)\<lparr>book_author := book_author (db c) @ [(b, au_id r)]\<rparr>"
      by (simp add: save_author_eq insert_book_author_db foc_author_db)
    with present(2,3) False show ?thesis by (rule linked)
  qed
qed

lemma select_authors_of_round:
  assumes "consistent (db c)" and "b \<in> set (map bk_id (book (db c)))"
    and "\<forall>r\<in>set (author (db c)). au_url r = Author.url a \<longrightarrow>
           au_name r = name a \<and> (b, au_id r) \<notin> set (book_author (db c))"
  shows "select_authors_of b (snd (save_author b a c)) =
           select_authors_of b c @ [(Author.url a, name a)]"
proof -
  define g :: "author_row list \<Rightarrow> int \<times> int \<Rightarrow> (string \<times> string) list"
    where "g = (\<lambda>A ba. map (\<lambda>r. (au_url r, au_name r)) (filter (\<lambda>r. au_id r = snd ba) A))"
  have sel: "select_authors_of b d =
      concat (map (g (author (db d))) (filter (\<lambda>ba. fst ba = b) (book_author (db d))))" for d
    by (simp add: select_authors_of_def g_def)
  from assms(1,2) show ?thesis
  proof (cases rule: save_author_db_cases [of c b a])
    case created
    let ?n = "next_rowid (map au_id (author (db c)))"
    let ?row = "\<lparr>au_id = ?n, au_url = Author.url a, au_name = name a\<rparr>"
    have fresh: "?n \<notin> set (map au_id (author (db c)))" by (rule next_rowid_fresh)
    then have none: "filter (\<lambda>r. au_id r = ?n) (author (db c)) = []"
      by (auto simp: filter_empty_conv dest: key_notin_image)
    have links: "\<forall>l\<in>set (book_author (db c)). snd l \<in> set (map au_id (author (db c)))"
      using assms(1) by (simp add: consistent_def links_ok_def list_all_iff)
    have "g (author (db c) @ [?row]) l = g (author (db c)) l" if "l \<in> set (book_author (db c))" for l
    proof -
      from links that have "snd l \<in> set (map au_id (author (db c)))" by blast
      with fresh have "?n \<noteq> snd l" by metis
      then show ?thesis by (simp add: g_def)
    qed
    then have e1: "map (g (author (db c) @ [?row])) (filter (\<lambda>ba. fst ba = b) (book_author (db c)))
        = map (g (author (db c))) (filter (\<lambda>ba. fst ba = b) (book_author (db c)))"
      by (intro map_cong) simp_all
    have e2: "g (author (db c) @ [?row]) (b, ?n) = [(Author.url a, name a)]"
      by (simp add: g_def none)
    show ?thesis by (simp add: sel created(2) e1 e2)
  next
    case (linked r)
    have "distinct (map au_id (author (db c)))"
      using assms(1) by (simp add: consistent_def ids_ok_def)
    then have "filter (\<lambda>x. au_id x = au_id r) (author (db c)) = [r]"
      using linked(1) by (rule distinct_key_filter)
    moreover have "au_name r = name a" using assms(3) linked by blast
    ultimately have "g (author (db c)) (b, au_id r) = [(Author.url a, name a)]"
      using linked(2) by (simp add: g_def)
    then show ?thesis by (simp add: sel linked(4))
  next
    case (settled r)
    with assms(3) show ?thesis by blast
  qed
qed

lemma save_author_keeps_unlinked:
  assumes "consistent (db c)" and "b \<in> set (map bk_id (book (db c)))"
    and "Author.url a' \<noteq> Author.url a"
    and "\<forall>r\<in>set (author (db c)). au_url r = Author.url a' \<longrightarrow>
           au_name r = name a' \<and> (b, au_id r) \<notin> set (book_author (db c))"
  shows "\<forall>r\<in>set (author (db (snd (save_author b a c)))). au_url r = Author.url a' \<longrightarrow>
           au_name r = name a' \<and> (b, au_id r) \<notin> set (book_author (db (snd (save_author b a c))))"
  using assms(1,2)
proof (cases rule: save_author_db_cases [of c b a])
  case created
  have "next_rowid (map au_id (author (db c))) \<notin> set (map au_id (author (db c)))"
    by (rule next_rowid_fresh)
  then have "\<forall>r\<in>set (author (db c)). au_id r \<noteq> next_rowid (map au_id (author (db c)))"
    by (metis imageI set_map)
  with assms(3,4) show ?thesis by (auto simp: created(2))
next
  case (linked r)
  have d: "distinct (map au_id (author (db c)))"
    using assms(1) by (simp add: consistent_def ids_ok_def)
  have "au_id x \<noteq> au_id r" if "x \<in> set (author (db c))" "au_url x = Author.url a'" for x
  proof
    assume "au_id x = au_id r"
    with d that(1) linked(1) have "x = r" by (metis distinct_map inj_onD)
    with that(2) linked(2) assms(3) show False by simp
  qed
  with assms(4) show ?thesis by (auto simp: linked(4))
next
  case (settled r)
  with assms(4) show ?thesis by simp
qed

lemma select_authors_of_loop:
  assumes "consistent (db c)" and "b \<in> set (map bk_id (book (db c)))"
    and "distinct (map Author.url as)"
    and "\<forall>a\<in>set as. \<forall>r\<in>set (author (db c)). au_url r = Author.url a \<longrightarrow>
           au_name r = name a \<and> (b, au_id r) \<notin> set (book_author (db c))"
  shows "select_authors_of b (snd (save_authors b as c)) =
           select_authors_of b c @ map (\<lambda>a. (Author.url a, name a)) as"
  using assms
proof (induction as arbitrary: c)
  case Nil
  then show ?case by simp
next
  case (Cons a as)
  let ?c1 = "snd (save_author b a c)"
  have ok: "fst (save_author b a c) = Inr ()"
    using save_author_failure [of b a c] Cons.prems(2) by blast
  have 1: "consistent (db ?c1)" using Cons.prems(1) by (rule consistent_save_author)
  have 2: "b \<in> set (map bk_id (book (db ?c1)))" using Cons.prems(2) by (simp add: save_author_frame)
  have 3: "distinct (map Author.url as)" using Cons.prems(3) by simp
  have 4: "\<forall>a'\<in>set as. \<forall>r\<in>set (author (db ?c1)). au_url r = Author.url a' \<longrightarrow>
           au_name r = name a' \<and> (b, au_id r) \<notin> set (book_author (db ?c1))"
  proof
    fix a' assume a': "a' \<in> set as"
    with Cons.prems(3) have "Author.url a' \<noteq> Author.url a"
      by (auto dest: key_notin_image)
    moreover from a' Cons.prems(4) have "\<forall>r\<in>set (author (db c)). au_url r = Author.url a' \<longrightarrow>
           au_name r = name a' \<and> (b, au_id r) \<notin> set (book_author (db c))" by simp
    ultimately show "\<forall>r\<in>set (author (db ?c1)). au_url r = Author.url a' \<longrightarrow>
           au_name r = name a' \<and> (b, au_id r) \<notin> set (book_author (db ?c1))"
      using Cons.prems(1,2) by (intro save_author_keeps_unlinked)
  qed
  have "select_authors_of b ?c1 = select_authors_of b c @ [(Author.url a, name a)]"
    using Cons.prems(1,2,4) by (intro select_authors_of_round) simp_all
  with Cons.IH [OF 1 2 3 4] ok show ?case by (simp add: save_authors_Cons)
qed

lemma save_subject_db_cases:
  assumes "consistent (db c)" and "b \<in> set (map bk_id (book (db c)))"
  obtains (created) "s \<notin> set (map sub_name (subject (db c)))"
      "db (snd (save_subject b s c)) = (db c)\<lparr>
         subject := subject (db c) @
           [\<lparr>su_id = next_rowid (map su_id (subject (db c))), sub_name = s\<rparr>],
         book_subject := book_subject (db c) @ [(b, next_rowid (map su_id (subject (db c))))]\<rparr>"
    | (linked) r where "r \<in> set (subject (db c))" "sub_name r = s"
      "(b, su_id r) \<notin> set (book_subject (db c))"
      "db (snd (save_subject b s c)) = (db c)\<lparr>book_subject := book_subject (db c) @ [(b, su_id r)]\<rparr>"
    | (settled) r where "r \<in> set (subject (db c))" "sub_name r = s"
      "(b, su_id r) \<in> set (book_subject (db c))"
      "db (snd (save_subject b s c)) = db c"
proof (cases rule: find_key_cases [of sub_name s "subject (db c)"])
  case absent
  let ?n = "next_rowid (map su_id (subject (db c)))"
  have "?n \<notin> set (map su_id (subject (db c)))" by (rule next_rowid_fresh)
  moreover have "\<forall>l\<in>set (book_subject (db c)). snd l \<in> set (map su_id (subject (db c)))"
    using assms(1) by (simp add: consistent_def links_ok_def list_all_iff)
  ultimately have "(b, ?n) \<notin> set (book_subject (db c))" by force
  with absent assms(2) have
    "db (snd (save_subject b s c)) = (db c)\<lparr>
         subject := subject (db c) @ [\<lparr>su_id = ?n, sub_name = s\<rparr>],
         book_subject := book_subject (db c) @ [(b, ?n)]\<rparr>"
    by (simp add: save_subject_eq insert_book_subject_db foc_subject_db)
  with absent(2) show ?thesis by (rule created)
next
  case (present r)
  then have in_ids: "su_id r \<in> set (map su_id (subject (db c)))" by force
  show ?thesis
  proof (cases "(b, su_id r) \<in> set (book_subject (db c))")
    case True
    with present have "db (snd (save_subject b s c)) = db c"
      by (simp add: save_subject_eq insert_book_subject_db foc_subject_db)
    with present(2,3) True show ?thesis by (rule settled)
  next
    case False
    with present assms(2) in_ids
    have "db (snd (save_subject b s c)) = (db c)\<lparr>book_subject := book_subject (db c) @ [(b, su_id r)]\<rparr>"
      by (simp add: save_subject_eq insert_book_subject_db foc_subject_db)
    with present(2,3) False show ?thesis by (rule linked)
  qed
qed

lemma set_select_subjects_of:
  "set (select_subjects_of b c) =
     {n. \<exists>r l. n = sub_name r \<and> l \<in> set (book_subject (db c)) \<and> fst l = b \<and>
               r \<in> set (subject (db c)) \<and> su_id r = snd l}"
  by (auto simp: select_subjects_of_def)

lemma select_subjects_of_round:
  assumes "consistent (db c)" and "b \<in> set (map bk_id (book (db c)))"
  shows "set (select_subjects_of b (snd (save_subject b s c))) = insert s (set (select_subjects_of b c))"
  using assms
proof (cases rule: save_subject_db_cases [of c b s])
  case created
  let ?n = "next_rowid (map su_id (subject (db c)))"
  have fresh: "?n \<notin> set (map su_id (subject (db c)))" by (rule next_rowid_fresh)
  then have rows: "\<forall>r\<in>set (subject (db c)). su_id r \<noteq> ?n"
    by (auto dest: key_notin_image)
  have "\<forall>l\<in>set (book_subject (db c)). snd l \<in> set (map su_id (subject (db c)))"
    using assms(1) by (simp add: consistent_def links_ok_def list_all_iff)
  with fresh have links: "\<forall>l\<in>set (book_subject (db c)). snd l \<noteq> ?n" by metis
  show ?thesis
    unfolding set_select_subjects_of created(2)
    using rows links by (auto; force)
next
  case (linked r)
  have d: "distinct (map su_id (subject (db c)))"
    using assms(1) by (simp add: consistent_def ids_ok_def)
  have same: "x = r" if "x \<in> set (subject (db c))" "su_id x = su_id r" for x
    using d that linked(1) by (metis distinct_map inj_onD)
  show ?thesis
    unfolding set_select_subjects_of linked(4)
    using linked(1,2) same by (auto; force)
next
  case (settled r)
  then have "s \<in> set (select_subjects_of b c)"
    unfolding set_select_subjects_of by force
  with settled(4) show ?thesis
    by (auto simp: set_select_subjects_of)
qed

lemma select_subjects_of_loop:
  assumes "consistent (db c)" and "b \<in> set (map bk_id (book (db c)))"
  shows "set (select_subjects_of b (snd (save_subjects b ss c))) = set (select_subjects_of b c) \<union> set ss"
  using assms
proof (induction ss arbitrary: c)
  case Nil
  then show ?case by simp
next
  case (Cons s ss)
  let ?c1 = "snd (save_subject b s c)"
  have ok: "fst (save_subject b s c) = Inr ()"
    using save_subject_failure [of b s c] Cons.prems(2) by blast
  have 1: "consistent (db ?c1)" using Cons.prems(1) by (rule consistent_save_subject)
  have 2: "b \<in> set (map bk_id (book (db ?c1)))" using Cons.prems(2) by (simp add: save_subject_frame)
  have "set (select_subjects_of b ?c1) = insert s (set (select_subjects_of b c))"
    using Cons.prems by (rule select_subjects_of_round)
  with Cons.IH [OF 1 2] ok show ?case by (simp add: save_subjects_Cons)
qed

lemma select_authors_of_db:
  "author (db c) = author (db d) \<Longrightarrow> book_author (db c) = book_author (db d) \<Longrightarrow>
   select_authors_of b c = select_authors_of b d"
  by (simp add: select_authors_of_def)

lemma select_subjects_of_db:
  "subject (db c) = subject (db d) \<Longrightarrow> book_subject (db c) = book_subject (db d) \<Longrightarrow>
   select_subjects_of b c = select_subjects_of b d"
  by (simp add: select_subjects_of_def)

text \<open>
  Claim C3, as amended. Let the store be one that calls of \<^verbatim>\<open>save\<close> and \<^verbatim>\<open>from_db\<close>
  produce from the empty store, and let \<open>b\<close> be a book whose isbn and url are not in
  it, whose authors have pairwise different urls, and each of whose authors is either
  not stored yet or stored under the name that \<open>b\<close> gives. Then \<^verbatim>\<open>save\<close> returns
  normally, and \<^verbatim>\<open>from_db\<close> with the book's isbn (as a string or as an \<^verbatim>\<open>Isbn\<close> object)
  returns a book with the url, isbn, title, subtitle and cover url of \<open>b\<close>, the authors
  of \<open>b\<close> up to order, and the subjects of \<open>b\<close> as a set, leaving the store as
  \<^verbatim>\<open>save\<close> left it.
\<close>

theorem save_from_db_round_trip:
  assumes "reachable t"
    and "isbn b \<notin> set (map bk_isbn (book t))" and "Book.url b \<notin> set (map bk_url (book t))"
    and "distinct (map Author.url (authors b))"
    and "\<forall>a\<in>set (authors b). \<forall>r\<in>set (author t). au_url r = Author.url a \<longrightarrow> au_name r = name a"
    and "isbn_key i = isbn b"
  shows "fst (save b t) = Inr () \<and>
    (\<exists>b'. from_db i (snd (save b t)) = (Inr b', snd (save b t)) \<and>
       Book.url b' = Book.url b \<and> isbn b' = isbn b \<and> title b' = title b \<and>
       subtitle b' = subtitle b \<and> cover_url b' = cover_url b \<and>
       mset (authors b') = mset (authors b) \<and> set (subjects b') = set (subjects b))"
proof -
  let ?n = "next_rowid (map bk_id (book t))"
  let ?row = "\<lparr>bk_id = ?n, bk_url = Book.url b, bk_isbn = isbn b,
             bk_title = title b, bk_subtitle = subtitle b, bk_cover_url = cover_url b\<rparr>"
  define c1 where "c1 = snd (resolve_book_id b (connect t))"
  define c2 where "c2 = snd (save_authors ?n (authors b) c1)"
  define c3 where "c3 = snd (save_subjects ?n (subjects b) c2)"
  have s0: "snapshot (connect t) = None" "db (connect t) = t" by (simp_all add: connect_def)
  have cons: "consistent t" using assms(1) by (rule consistent_reachable)
  have bid: "fst (resolve_book_id b (connect t)) = Inr ?n"
    and db1: "db c1 = t\<lparr>book := book t @ [?row]\<rparr>"
    using resolve_book_id_new [of b "connect t"] assms(2,3) by (simp_all add: s0 c1_def)
  have cons1: "consistent (db c1)"
    unfolding db1 using cons assms(2,3) by (intro consistent_add_book)
  have in1: "?n \<in> set (map bk_id (book (db c1)))" by (simp add: db1)
  have fresh: "?n \<notin> set (map bk_id (book t))" by (rule next_rowid_fresh)
  have "\<forall>l\<in>set (book_author t). fst l \<in> set (map bk_id (book t))"
    "\<forall>l\<in>set (book_subject t). fst l \<in> set (map bk_id (book t))"
    using cons by (simp_all add: consistent_def links_ok_def list_all_iff)
  with fresh have nolinks: "\<forall>l\<in>set (book_author t). fst l \<noteq> ?n" "\<forall>l\<in>set (book_subject t). fst l \<noteq> ?n"
    by metis+
  then have empty1: "select_authors_of ?n c1 = []" "select_subjects_of ?n c1 = []"
    by (simp_all add: select_authors_of_def select_subjects_of_def db1 filter_empty_conv)
  have unl: "\<forall>a\<in>set (authors b). \<forall>r\<in>set (author (db c1)). au_url r = Author.url a \<longrightarrow>
           au_name r = name a \<and> (?n, au_id r) \<notin> set (book_author (db c1))"
    using assms(5) nolinks(1) by (auto simp: db1)
  have sel2: "select_authors_of ?n c2 = map (\<lambda>a. (Author.url a, name a)) (authors b)"
    using select_authors_of_loop [OF cons1 in1 assms(4) unl] by (simp add: c2_def empty1)
  have cons2: "consistent (db c2)" unfolding c2_def using cons1 by (rule consistent_save_authors)
  have f2: "book (db c2) = book (db c1)" "subject (db c2) = subject (db c1)"
    "book_subject (db c2) = book_subject (db c1)" by (simp_all add: c2_def save_authors_frame)
  have f3: "book (db c3) = book (db c2)" "author (db c3) = author (db c2)"
    "book_author (db c3) = book_author (db c2)" by (simp_all add: c3_def save_subjects_frame)
  have in2: "?n \<in> set (map bk_id (book (db c2)))" using in1 by (simp add: f2)
  have "select_subjects_of ?n c2 = select_subjects_of ?n c1"
    by (rule select_subjects_of_db) (simp_all add: f2)
  then have sel3: "set (select_subjects_of ?n c3) = set (subjects b)"
    using select_subjects_of_loop [OF cons2 in2, of "subjects b"] by (simp add: c3_def empty1)
  have sel3a: "select_authors_of ?n c3 = map (\<lambda>a. (Author.url a, name a)) (authors b)"
    using select_authors_of_db [of c3 c2 ?n] by (simp add: f3 sel2)
  have oka: "fst (save_authors ?n (authors b) c1) = Inr ()" using in1 by (rule save_authors_ok)
  have oks: "fst (save_subjects ?n (subjects b) c2) = Inr ()" using in2 by (rule save_subjects_ok)
  have sv: "save b t = (Inr (), db c3)"
    using oka oks
    by (simp add: save_stages [OF bid] c1_def [symmetric] c2_def [symmetric] c3_def [symmetric])
  have "find (\<lambda>r. bk_isbn r = isbn b) (book t) = None"
    using assms(2) by (simp add: find_key_None)
  then have look: "find (\<lambda>r. bk_isbn r = isbn_key i) (book (db c3)) = Some ?row"
    by (simp add: f3 f2 db1 assms(6) find_append_None)
  have s3: "snapshot (connect (db c3)) = None" "db (connect (db c3)) = db c3"
    by (simp_all add: connect_def)
  have sa: "select_authors_of ?n (connect (db c3)) = select_authors_of ?n c3"
    by (rule select_authors_of_db) (simp_all add: s3)
  have ss: "select_subjects_of ?n (connect (db c3)) = select_subjects_of ?n c3"
    by (rule select_subjects_of_db) (simp_all add: s3)
  have rebuild: "map ((\<lambda>(u, n). \<lparr>Author.url = u, name = n\<rparr>) \<circ> (\<lambda>a. (Author.url a, name a))) xs = xs"
    for xs by (induction xs) simp_all
  define b' where "b' = \<lparr>Book.url = Book.url b, isbn = isbn b, title = title b, subtitle = subtitle b,
      authors = authors b, subjects = remdups (select_subjects_of ?n c3), cover_url = cover_url b\<rparr>"
  have "from_db i (db c3) = (Inr b', db c3)"
    using look
    by (simp add: from_db_def from_db_body_def select_book_def s3 close_def sa ss sel3a rebuild b'_def)
  moreover have "Book.url b' = Book.url b \<and> isbn b' = isbn b \<and> title b' = title b \<and>
       subtitle b' = subtitle b \<and> cover_url b' = cover_url b \<and>
       mset (authors b') = mset (authors b) \<and> set (subjects b') = set (subjects b)"
    by (simp add: b'_def sel3)
  ultimately show ?thesis by (auto simp: sv)
qed

theorem save_from_db_round_trip_witness:
  "fst (save book_b2 store_b1) = Inr () \<and>
   (\<exists>b'. from_db (IsbnString ''9780140449136'') (snd (save book_b2 store_b1))
            = (Inr b', snd (save book_b2 store_b1)) \<and>
       Book.url b' = ''https://ol/b2'' \<and> isbn b' = ''9780140449136'' \<and> title b' = ''U'' \<and>
       subtitle b' = Some ''S'' \<and> cover_url b' = Some ''https://ol/c2'' \<and>
       mset (authors b') = mset [author_a1, author_a2] \<and>
       set (subjects b') = {''Economics'', ''History''})"
proof -
  have r: "reachable store_b1" unfolding store_b1_def by (intro reachable_save reachable_empty)
  have st: "store_b1 = \<lparr>book = [\<lparr>bk_id = 1, bk_url = ''https://ol/b1'', bk_isbn = ''9780226550275'',
         bk_title = ''T'', bk_subtitle = None, bk_cover_url = None\<rparr>],
      author = [\<lparr>au_id = 1, au_url = ''https://ol/a1'', au_name = ''A. Author''\<rparr>],
      subject = [\<lparr>su_id = 1, sub_name = ''Economics''\<rparr>],
      book_author = [(1, 1)], book_subject = [(1, 1)]\<rparr>"
    by (simp add: store_b1_def book_b1_def author_a1_def engine_defs)
  have h: "isbn book_b2 \<notin> set (map bk_isbn (book store_b1))"
    "Book.url book_b2 \<notin> set (map bk_url (book store_b1))"
    "distinct (map Author.url (authors book_b2))"
    "\<forall>a\<in>set (authors book_b2). \<forall>r\<in>set (author store_b1). au_url r = Author.url a \<longrightarrow> au_name r = name a"
    "isbn_key (IsbnString ''9780140449136'') = isbn book_b2"
    by (simp_all add: st book_b2_def author_a1_def author_a2_def)
  from save_from_db_round_trip [OF r h] show ?thesis
    by (simp add: book_b2_def)
qed

text \<open>
  Claim C3 as stated, without the conditions on the authors, fails. An author row is
  written once and never updated: \<^verbatim>\<open>book_b3\<close> names the stored author's url with
  another name and gets the stored name back. The link pair is unique: \<^verbatim>\<open>book_b4\<close>
  lists one author twice and gets it back once.
\<close>

theorem round_trip_counterexample:
  "isbn book_b3 \<notin> set (map bk_isbn (book store_b1)) \<and>
   Book.url book_b3 \<notin> set (map bk_url (book store_b1)) \<and>
   fst (save book_b3 store_b1) = Inr () \<and>
   map_sum id authors (fst (from_db (IsbnString (isbn book_b3)) (snd (save book_b3 store_b1))))
     = Inr [\<lparr>Author.url = ''https://ol/a1'', name = ''A. Author''\<rparr>] \<and>
   authors book_b3 = [\<lparr>Author.url = ''https://ol/a1'', name = ''Alice Author''\<rparr>] \<and>
   mset [\<lparr>Author.url = ''https://ol/a1'', name = ''A. Author''\<rparr>] \<noteq> mset (authors book_b3) \<and>
   isbn book_b4 \<notin> set (map bk_isbn (book store_b1)) \<and>
   Book.url book_b4 \<notin> set (map bk_url (book store_b1)) \<and>
   fst (save book_b4 store_b1) = Inr () \<and>
   map_sum id authors (fst (from_db (IsbnString (isbn book_b4)) (snd (save book_b4 store_b1))))
     = Inr [author_a2] \<and>
   mset [author_a2] \<noteq> mset (authors book_b4)"
  by (simp add: store_b1_def book_b1_def book_b3_def book_b4_def author_a1_def author_a2_def engine_defs)

end
